theory Spec2Isabelle
  imports Complex_Main "HOL-Library.AList"
begin

section \<open>Data model (types.ts)\<close>

text \<open>
  Text is a \<^typ>\<open>string\<close>: a \<^typ>\<open>char\<close> stands for one UTF-16 code unit below 256.
  Timestamps (\<^verbatim>\<open>Date.now()\<close>, integral milliseconds) are \<^typ>\<open>int\<close>.
\<close>

text \<open>
  The value universe of \<^verbatim>\<open>JSON.parse\<close>. A decoded string is a list of UTF-16 code
  units, since a four-digit hexadecimal escape may denote a unit above 255. A number is kept as
  the exact rational its literal denotes; the rounding to an IEEE double is not modelled.
  An object is the list of its properties in creation order.
\<close>

datatype json =
    JNull
  | JBool bool
  | JNumber rat
  | JString "nat list"
  | JArray "json list"
  | JObject "(nat list \<times> json) list"

text \<open>A text of the model as a JavaScript string value.\<close>

definition js_string :: "string \<Rightarrow> json" where
  "js_string s = JString (map of_char s)"

text \<open>
  JavaScript truthiness of a parsed value, and the negation \<^verbatim>\<open>!x\<close> of a value that may
  be null.
\<close>

fun truthy :: "json \<Rightarrow> bool" where
  "truthy JNull = False"
| "truthy (JBool b) = b"
| "truthy (JNumber x) = (x \<noteq> 0)"
| "truthy (JString s) = (s \<noteq> [])"
| "truthy (JArray vs) = True"
| "truthy (JObject ms) = True"

definition falsy :: "json option \<Rightarrow> bool" where
  "falsy d = (case d of None \<Rightarrow> True | Some v \<Rightarrow> \<not> truthy v)"

text \<open>
  A source. The program stores \<^verbatim>\<open>chunk.web.uri\<close> as it finds it, so the field may
  be absent whatever its declared type says.
\<close>

record GroundingSource =
  title :: string
  uri :: "string option"

text \<open>
  \<^verbatim>\<open>AnalysisResult\<close>: \<^verbatim>\<open>data\<close> is whatever \<^verbatim>\<open>JSON.parse\<close> returned (the cast to
  \<^verbatim>\<open>ComparisonData\<close> checks nothing) or null; \<^verbatim>\<open>rawText\<close> and \<^verbatim>\<open>timestamp\<close> are
  optional fields.
\<close>

record AnalysisResult =
  data :: "json option"
  sources :: "GroundingSource list"
  rawText :: "string option"
  query :: string
  timestamp :: "int option"

record SavedComparison = AnalysisResult +
  saved_id :: string
  savedAt :: int

record HistoryItem =
  h_query :: string
  h_timestamp :: int

datatype LoadingState = IDLE | LOADING | SUCCESS | ERROR

datatype View = Home | Saved

datatype StatsPeriod = P24h | P7d | P30d

datatype js_error = ApiError string | SyntaxError

section \<open>JavaScript library functions\<close>

text \<open>
  The functions of the language runtime that the program calls, each modelled on the
  texts of this theory.
\<close>

subsection \<open>Strings and arrays\<close>

text \<open>
  \<^verbatim>\<open>String.prototype.trim\<close> removes white space and line terminators at both ends; among
  the code units below 256 these are 9 to 13, 32 and 160.
\<close>

definition isWhiteSpace :: "char \<Rightarrow> bool" where
  "isWhiteSpace c = ((of_char c :: nat) \<in> {9, 10, 11, 12, 13, 32, 160})"

definition trim :: "string \<Rightarrow> string" where
  "trim s = rev (dropWhile isWhiteSpace (rev (dropWhile isWhiteSpace s)))"

text \<open>\<^verbatim>\<open>Array.prototype.findIndex\<close>: the first index whose element satisfies the predicate, else -1.\<close>

fun findIndex :: "('a \<Rightarrow> bool) \<Rightarrow> 'a list \<Rightarrow> int" where
  "findIndex P [] = - 1"
| "findIndex P (x # xs) =
     (if P x then 0 else (let i = findIndex P xs in if i < 0 then - 1 else i + 1))"

text \<open>\<^verbatim>\<open>Array.prototype.filter\<close> with a callback that also reads the index.\<close>

fun filter_from :: "nat \<Rightarrow> ('a \<Rightarrow> nat \<Rightarrow> bool) \<Rightarrow> 'a list \<Rightarrow> 'a list" where
  "filter_from k f [] = []"
| "filter_from k f (x # xs) =
     (if f x k then x # filter_from (Suc k) f xs else filter_from (Suc k) f xs)"

definition filter_indexed :: "('a \<Rightarrow> nat \<Rightarrow> bool) \<Rightarrow> 'a list \<Rightarrow> 'a list" where
  "filter_indexed f xs = filter_from 0 f xs"

subsection \<open>Numbers\<close>

text \<open>
  A JavaScript number is an IEEE 754 binary64 value; the finite ones are rationals. An
  arithmetic operation returns the exact result rounded to the nearest rational with a
  significand of 53 bits, a tie going to the even significand. \<open>binary64\<close> is this
  rounding: \<open>exponent a\<close> is the binary exponent of a positive rational
  (\<open>2 ^ e \<le> a < 2 ^ (e + 1)\<close>, lemma \<open>exponent_bounds\<close>), and the significand
  is counted in units of \<open>2 ^ (e - 52)\<close>. The exponent is not bounded here: the
  operands of the arithmetic below are lengths of arrays, integers below \<open>2 ^ 32\<close>,
  whose quotients and their products by 100 are zero or lie between \<open>2 ^ - 32\<close> and
  \<open>2 ^ 39\<close>, far from the subnormal range and from overflow.
\<close>

fun bits :: "nat \<Rightarrow> nat" where
  "bits n = (if n = 0 then 0 else Suc (bits (n div 2)))"

declare bits.simps [simp del]

definition exponent :: "rat \<Rightarrow> int" where
  "exponent a =
     (if 1 \<le> a then int (bits (nat \<lfloor>a\<rfloor>)) - 1
      else - int (bits (nat (\<lceil>1 / a\<rceil> - 1))))"

definition round_half_even :: "rat \<Rightarrow> int" where
  "round_half_even m =
     (let f = \<lfloor>m\<rfloor>; r = m - of_int f
      in if r < 1 / 2 then f
         else if 1 / 2 < r then f + 1
         else if even f then f else f + 1)"

definition binary64 :: "rat \<Rightarrow> rat" where
  "binary64 x =
     (if x = 0 then 0
      else
        let e = exponent \<bar>x\<bar>;
            ulp = 2 powi (e - 52)
        in sgn x * of_int (round_half_even (\<bar>x\<bar> / ulp)) * ulp)"

text \<open>
  \<^verbatim>\<open>Math.round\<close> returns the integer nearest to its argument, a tie going to the
  larger integer. Its argument is the rational value of a double. For an argument from
  -0.5 up to 0 the result is the number -0, which compares as 0 and prints as "0": the
  integer 0 here.
\<close>

definition Math_round :: "rat \<Rightarrow> int" where
  "Math_round x = \<lfloor>x + 1 / 2\<rfloor>"

text \<open>The decimal text of an integral number, as string concatenation produces it.\<close>

fun string_of_nat :: "nat \<Rightarrow> string" where
  "string_of_nat n =
     (if n < 10 then [char_of (48 + n)]
      else string_of_nat (n div 10) @ [char_of (48 + n mod 10)])"

declare string_of_nat.simps [simp del]

definition string_of_int :: "int \<Rightarrow> string" where
  "string_of_int i = (if i < 0 then CHR ''-'' # string_of_nat (nat (- i)) else string_of_nat (nat i))"

subsection \<open>The regular expression of the extraction\<close>

text \<open>
  The pattern of \<^verbatim>\<open>text.match\<close> is an opening brace, any characters (line breaks
  too), a closing brace. The match starts at the first opening brace and, the star being
  greedy, ends at the last closing brace after it; there is no match when no closing
  brace follows the first opening brace.
\<close>

definition jsonMatch :: "string \<Rightarrow> string option" where
  "jsonMatch text =
     (let fromOpen = dropWhile (\<lambda>c. c \<noteq> CHR ''{'') text
      in if CHR ''}'' \<in> set fromOpen
         then Some (rev (dropWhile (\<lambda>c. c \<noteq> CHR ''}'') (rev fromOpen)))
         else None)"

subsection \<open>JSON.parse\<close>

text \<open>
  A recursive-descent reader of the JSON grammar (ECMA-404), \<open>None\<close> where
  \<^verbatim>\<open>JSON.parse\<close> throws a \<^verbatim>\<open>SyntaxError\<close>. The recursion runs on a fuel that
  decreases at every call; \<open>JSON_parse\<close> starts it with twice the length of the text
  plus two, and no larger fuel gives another result (lemma \<open>JSON_parse_fuel\<close>).
\<close>

definition is_ws :: "char \<Rightarrow> bool" where
  "is_ws c = (c = CHR '' '' \<or> c = CHR 0x09 \<or> c = CHR 0x0A \<or> c = CHR 0x0D)"

definition is_digit :: "char \<Rightarrow> bool" where
  "is_digit c = (48 \<le> (of_char c :: nat) \<and> (of_char c :: nat) \<le> 57)"

definition digit_val :: "char \<Rightarrow> nat" where
  "digit_val c = of_char c - 48"

definition nat_of_digits :: "string \<Rightarrow> nat" where
  "nat_of_digits ds = foldl (\<lambda>n c. 10 * n + digit_val c) 0 ds"

definition hex_val :: "char \<Rightarrow> nat option" where
  "hex_val c =
     (let n = (of_char c :: nat)
      in if 48 \<le> n \<and> n \<le> 57 then Some (n - 48)
         else if 65 \<le> n \<and> n \<le> 70 then Some (n - 55)
         else if 97 \<le> n \<and> n \<le> 102 then Some (n - 87)
         else None)"

definition hex4 :: "char \<Rightarrow> char \<Rightarrow> char \<Rightarrow> char \<Rightarrow> nat option" where
  "hex4 a b c d =
     (case (hex_val a, hex_val b, hex_val c, hex_val d) of
        (Some x, Some y, Some z, Some w) \<Rightarrow> Some (((x * 16 + y) * 16 + z) * 16 + w)
      | _ \<Rightarrow> None)"

definition escape_val :: "char \<Rightarrow> nat option" where
  "escape_val e =
     (if e = CHR 0x22 then Some 34
      else if e = CHR 0x5C then Some 92
      else if e = CHR ''/'' then Some 47
      else if e = CHR ''b'' then Some 8
      else if e = CHR ''f'' then Some 12
      else if e = CHR ''n'' then Some 10
      else if e = CHR ''r'' then Some 13
      else if e = CHR ''t'' then Some 9
      else None)"

definition cons_unit :: "nat \<Rightarrow> (nat list \<times> string) option \<Rightarrow> (nat list \<times> string) option" where
  "cons_unit u res = map_option (\<lambda>(s, rest). (u # s, rest)) res"

fun parse_chars :: "string \<Rightarrow> (nat list \<times> string) option" where
  "parse_chars [] = None"
| "parse_chars (c # cs) =
     (if c = CHR 0x22 then Some ([], cs)
      else if c = CHR 0x5C then
        (case cs of
           [] \<Rightarrow> None
         | e # cs1 \<Rightarrow>
             if e = CHR ''u'' then
               (case cs1 of
                  h1 # h2 # h3 # h4 # cs2 \<Rightarrow>
                    (case hex4 h1 h2 h3 h4 of
                       None \<Rightarrow> None
                     | Some u \<Rightarrow> cons_unit u (parse_chars cs2))
                | _ \<Rightarrow> None)
             else
               (case escape_val e of
                  None \<Rightarrow> None
                | Some u \<Rightarrow> cons_unit u (parse_chars cs1)))
      else if (of_char c :: nat) < 32 then None
      else cons_unit (of_char c) (parse_chars cs))"

definition strip_prefix :: "string \<Rightarrow> string \<Rightarrow> string option" where
  "strip_prefix p s = (if take (length p) s = p then Some (drop (length p) s) else None)"

text \<open>
  A number: an optional minus, an integer part without a leading zero, an optional
  fraction, an optional exponent. Each part returns what it read and the rest.
\<close>

definition opt_minus :: "string \<Rightarrow> bool \<times> string" where
  "opt_minus cs =
     (case cs of
        [] \<Rightarrow> (False, cs)
      | c # r \<Rightarrow> if c = CHR ''-'' then (True, r) else (False, cs))"

definition parse_fraction :: "string \<Rightarrow> (string \<times> string) option" where
  "parse_fraction cs =
     (case cs of
        [] \<Rightarrow> Some ([], cs)
      | c # r \<Rightarrow>
          if c = CHR ''.'' then
            (if takeWhile is_digit r = [] then None
             else Some (takeWhile is_digit r, dropWhile is_digit r))
          else Some ([], cs))"

definition opt_sign :: "string \<Rightarrow> bool \<times> string" where
  "opt_sign cs =
     (case cs of
        [] \<Rightarrow> (False, cs)
      | c # r \<Rightarrow>
          if c = CHR ''-'' then (True, r)
          else if c = CHR ''+'' then (False, r)
          else (False, cs))"

definition parse_exponent :: "string \<Rightarrow> ((bool \<times> string) \<times> string) option" where
  "parse_exponent cs =
     (case cs of
        [] \<Rightarrow> Some ((False, []), cs)
      | c # r \<Rightarrow>
          if c = CHR ''e'' \<or> c = CHR ''E'' then
            (let (eneg, r1) = opt_sign r
             in if takeWhile is_digit r1 = [] then None
                else Some ((eneg, takeWhile is_digit r1), dropWhile is_digit r1))
          else Some ((False, []), cs))"

definition number_value :: "bool \<Rightarrow> string \<Rightarrow> string \<Rightarrow> bool \<Rightarrow> string \<Rightarrow> rat" where
  "number_value neg ds fs eneg es =
     (let mant = of_nat (nat_of_digits ds) + of_nat (nat_of_digits fs) / 10 ^ length fs;
          scaled = (if eneg then mant / 10 ^ nat_of_digits es
                    else mant * 10 ^ nat_of_digits es)
      in if neg then - scaled else scaled)"

definition parse_number :: "string \<Rightarrow> (rat \<times> string) option" where
  "parse_number cs =
     (let (neg, cs1) = opt_minus cs;
          ds = takeWhile is_digit cs1
      in if ds = [] \<or> (length ds > 1 \<and> hd ds = CHR ''0'') then None
         else
           (case parse_fraction (dropWhile is_digit cs1) of
              None \<Rightarrow> None
            | Some (fs, cs3) \<Rightarrow>
                (case parse_exponent cs3 of
                   None \<Rightarrow> None
                 | Some ((eneg, es), cs4) \<Rightarrow>
                     Some (number_value neg ds fs eneg es, cs4))))"

definition object_of :: "(nat list \<times> json) list \<Rightarrow> (nat list \<times> json) list" where
  "object_of ms = foldl (\<lambda>al (k, v). AList.update k v al) [] ms"

fun parse_value :: "nat \<Rightarrow> string \<Rightarrow> (json \<times> string) option"
  and parse_elements :: "nat \<Rightarrow> string \<Rightarrow> (json list \<times> string) option"
  and parse_members :: "nat \<Rightarrow> string \<Rightarrow> ((nat list \<times> json) list \<times> string) option"
where
  "parse_value 0 cs = None"
| "parse_value (Suc n) cs =
     (case dropWhile is_ws cs of
        [] \<Rightarrow> None
      | c # r \<Rightarrow>
          if c = CHR ''{'' then
            (case dropWhile is_ws r of
               [] \<Rightarrow> None
             | d # r1 \<Rightarrow>
                 if d = CHR ''}'' then Some (JObject [], r1)
                 else map_option (\<lambda>(ms, rest). (JObject (object_of ms), rest))
                        (parse_members n (d # r1)))
          else if c = CHR ''['' then
            (case dropWhile is_ws r of
               [] \<Rightarrow> None
             | d # r1 \<Rightarrow>
                 if d = CHR '']'' then Some (JArray [], r1)
                 else map_option (\<lambda>(vs, rest). (JArray vs, rest))
                        (parse_elements n (d # r1)))
          else if c = CHR 0x22 then
            map_option (\<lambda>(s, rest). (JString s, rest)) (parse_chars r)
          else
            (case strip_prefix ''true'' (c # r) of
               Some rest \<Rightarrow> Some (JBool True, rest)
             | None \<Rightarrow>
            (case strip_prefix ''false'' (c # r) of
               Some rest \<Rightarrow> Some (JBool False, rest)
             | None \<Rightarrow>
            (case strip_prefix ''null'' (c # r) of
               Some rest \<Rightarrow> Some (JNull, rest)
             | None \<Rightarrow>
                 map_option (\<lambda>(x, rest). (JNumber x, rest)) (parse_number (c # r))))))"
| "parse_elements 0 cs = None"
| "parse_elements (Suc n) cs =
     (case parse_value n cs of
        None \<Rightarrow> None
      | Some (v, r) \<Rightarrow>
          (case dropWhile is_ws r of
             [] \<Rightarrow> None
           | c # r1 \<Rightarrow>
               if c = CHR '','' then
                 map_option (\<lambda>(vs, rest). (v # vs, rest)) (parse_elements n r1)
               else if c = CHR '']'' then Some ([v], r1)
               else None))"
| "parse_members 0 cs = None"
| "parse_members (Suc n) cs =
     (case dropWhile is_ws cs of
        [] \<Rightarrow> None
      | q # r \<Rightarrow>
          if q \<noteq> CHR 0x22 then None
          else
            (case parse_chars r of
               None \<Rightarrow> None
             | Some (k, r1) \<Rightarrow>
                 (case dropWhile is_ws r1 of
                    [] \<Rightarrow> None
                  | c # r2 \<Rightarrow>
                      if c \<noteq> CHR '':'' then None
                      else
                        (case parse_value n r2 of
                           None \<Rightarrow> None
                         | Some (v, r3) \<Rightarrow>
                             (case dropWhile is_ws r3 of
                                [] \<Rightarrow> None
                              | d # r4 \<Rightarrow>
                                  if d = CHR '','' then
                                    map_option (\<lambda>(ms, rest). ((k, v) # ms, rest))
                                      (parse_members n r4)
                                  else if d = CHR ''}'' then Some ([(k, v)], r4)
                                  else None)))))"

definition JSON_parse :: "string \<Rightarrow> json option" where
  "JSON_parse s =
     (case parse_value (2 * length s + 2) s of
        None \<Rightarrow> None
      | Some (v, rest) \<Rightarrow> if dropWhile is_ws rest = [] then Some v else None)"

text \<open>
  A repeated property name keeps its first position and takes the last value
  (\<^const>\<open>AList.update\<close>); the enumeration order of integer-like names is not modelled.
\<close>

section \<open>services/gemini.ts\<close>

text \<open>
  What \<^verbatim>\<open>ai.models.generateContent\<close> resolves to, as far as the program reads it:
  the text and the grounding chunks of the first candidate. A rejected request is the
  \<open>Inl\<close> of a sum.
\<close>

record WebRef =
  web_title :: "string option"
  web_uri :: "string option"

record GroundingChunk =
  web :: "WebRef option"

record GenerateContentResponse =
  response_text :: "string option"
  groundingChunks :: "GroundingChunk list option"

text \<open>\<^verbatim>\<open>chunk.web.title || "Fonte Web"\<close>: an absent or empty title takes the label.\<close>

definition source_of_chunk :: "GroundingChunk \<Rightarrow> GroundingSource option" where
  "source_of_chunk chunk =
     (case web chunk of
        None \<Rightarrow> None
      | Some w \<Rightarrow>
          Some \<lparr>title = (case web_title w of
                           None \<Rightarrow> ''Fonte Web''
                         | Some t \<Rightarrow> if t = [] then ''Fonte Web'' else t),
                uri = web_uri w\<rparr>)"

definition extract_sources :: "GroundingChunk list option \<Rightarrow> GroundingSource list" where
  "extract_sources chunks =
     (case chunks of None \<Rightarrow> [] | Some cs \<Rightarrow> List.map_filter source_of_chunk cs)"

definition text_or_empty :: "string option \<Rightarrow> string" where
  "text_or_empty t = (case t of None \<Rightarrow> [] | Some s \<Rightarrow> s)"

text \<open>
  \<^verbatim>\<open>compareProducts\<close>, given the settled request and the clock. A throwing
  \<^verbatim>\<open>JSON.parse\<close> is caught and leaves \<^verbatim>\<open>jsonData\<close> null; a rejected request is
  rethrown.
\<close>

definition compareProducts ::
  "string \<Rightarrow> int \<Rightarrow> js_error + GenerateContentResponse \<Rightarrow> js_error + AnalysisResult" where
  "compareProducts q now response =
     (case response of
        Inl err \<Rightarrow> Inl err
      | Inr resp \<Rightarrow>
          (let srcs = extract_sources (groundingChunks resp);
               text = text_or_empty (response_text resp);
               jsonData = (case jsonMatch text of
                             None \<Rightarrow> None
                           | Some m \<Rightarrow> JSON_parse m)
           in Inr \<lparr>data = jsonData, sources = srcs,
                   rawText = (if falsy jsonData then Some text else None),
                   query = q, timestamp = Some now\<rparr>))"

text \<open>
  \<^verbatim>\<open>getPersonaAnalysis\<close>: here the parse is not guarded, so a \<^verbatim>\<open>SyntaxError\<close>
  rejects the promise. The context and the label only enter the prompt.
\<close>

definition getPersonaAnalysis ::
  "json \<Rightarrow> string \<Rightarrow> js_error + GenerateContentResponse \<Rightarrow> js_error + json" where
  "getPersonaAnalysis context personaLabel response =
     (case response of
        Inl err \<Rightarrow> Inl err
      | Inr resp \<Rightarrow>
          (let text = text_or_empty (response_text resp)
           in (case jsonMatch text of
                 Some m \<Rightarrow>
                   (case JSON_parse m of
                      None \<Rightarrow> Inl SyntaxError
                    | Some v \<Rightarrow> Inr v)
               | None \<Rightarrow>
                   Inr (JObject [(map of_char ''winner'', js_string ''Indeterminado''),
                                 (map of_char ''reason'', js_string text)]))))"

section \<open>Application state (App component)\<close>

text \<open>
  The state variables of \<^verbatim>\<open>App\<close> that the handlers below read or write. The
  address bar, the suggestion list and the theme are outside this state: the handlers
  below write them and read none of them back.
\<close>

record RealStats =
  searches :: nat
  savedCount :: nat
  trend :: string

record app_state =
  st_query :: string
  loadingState :: LoadingState
  result :: "AnalysisResult option"
  error :: "string option"
  showSuggestions :: bool
  history :: "HistoryItem list"
  savedComparisons :: "SavedComparison list"
  view :: View

subsection \<open>handleSearch\<close>

definition error_message :: string where
  "error_message =
     ''Ocorreu um erro ao processar sua compara'' @ [CHR 0xE7, CHR 0xE3] @
     ''o. Tente novamente mais tarde.''"

text \<open>\<^verbatim>\<open>searchQuery || query\<close>: an absent or empty argument falls back to the input field.\<close>

definition finalQuery :: "string option \<Rightarrow> app_state \<Rightarrow> string" where
  "finalQuery searchQuery st =
     (case searchQuery of
        None \<Rightarrow> st_query st
      | Some q \<Rightarrow> if q = [] then st_query st else q)"

text \<open>
  The updater passed to \<^verbatim>\<open>setHistory\<close> on success: no duplicate of the query, newest
  first, at most 20 entries.
\<close>

definition recordHistory :: "string \<Rightarrow> int \<Rightarrow> HistoryItem list \<Rightarrow> HistoryItem list" where
  "recordHistory fq now prev =
     (let newItem = \<lparr>h_query = fq, h_timestamp = now\<rparr>;
          filtered = filter (\<lambda>item. h_query item \<noteq> fq) prev
      in take 20 (newItem # filtered))"

text \<open>The part of \<^verbatim>\<open>handleSearch\<close> that runs before the request is awaited.\<close>

definition handleSearch_begin :: "string \<Rightarrow> app_state \<Rightarrow> app_state" where
  "handleSearch_begin fq st =
     st\<lparr>st_query := fq, showSuggestions := False, loadingState := LOADING,
        error := None, result := None, view := Home\<rparr>"

text \<open>
  The part after \<^verbatim>\<open>await compareProducts(finalQuery)\<close>: \<open>outcome\<close> is the settled promise
  (\<open>Inl\<close> a rejection), \<open>now\<close> the clock read for the history entry.
\<close>

definition handleSearch_settle ::
  "string \<Rightarrow> int \<Rightarrow> js_error + AnalysisResult \<Rightarrow> app_state \<Rightarrow> app_state" where
  "handleSearch_settle fq now outcome st =
     (case outcome of
        Inr res \<Rightarrow>
          st\<lparr>result := Some res, loadingState := SUCCESS,
             history := recordHistory fq now (history st)\<rparr>
      | Inl err \<Rightarrow>
          st\<lparr>error := Some error_message, loadingState := ERROR\<rparr>)"

text \<open>A whole search with no other event between dispatch and completion.\<close>

definition handleSearch ::
  "string option \<Rightarrow> int \<Rightarrow> js_error + AnalysisResult \<Rightarrow> app_state \<Rightarrow> app_state" where
  "handleSearch searchQuery now outcome st =
     (let fq = finalQuery searchQuery st
      in if trim fq = [] then st
         else handleSearch_settle fq now outcome (handleSearch_begin fq st))"

subsection \<open>History and bookmark handlers\<close>

definition clearHistory :: "app_state \<Rightarrow> app_state" where
  "clearHistory st = st\<lparr>history := []\<rparr>"

definition deleteHistoryItem :: "string \<Rightarrow> app_state \<Rightarrow> app_state" where
  "deleteHistoryItem queryToDelete st =
     st\<lparr>history := filter (\<lambda>item. h_query item \<noteq> queryToDelete) (history st)\<rparr>"

text \<open>
  \<^verbatim>\<open>toggleSave\<close>: \<open>uuid\<close> is the value of \<^verbatim>\<open>crypto.randomUUID()\<close> and \<open>now\<close> that of
  \<^verbatim>\<open>Date.now()\<close>. The updater runs on the list the index was computed from.
\<close>

definition same_result :: "AnalysisResult \<Rightarrow> SavedComparison \<Rightarrow> bool" where
  "same_result r item = (query item = query r \<and> timestamp item = timestamp r)"

definition toggleSave :: "string \<Rightarrow> int \<Rightarrow> app_state \<Rightarrow> app_state" where
  "toggleSave uuid now st =
     (case result st of
        None \<Rightarrow> st
      | Some r \<Rightarrow>
          if falsy (data r) then st
          else
            let existingIndex = findIndex (same_result r) (savedComparisons st)
            in if existingIndex \<ge> 0 then
                 st\<lparr>savedComparisons :=
                      filter_indexed (\<lambda>_ i. int i \<noteq> existingIndex) (savedComparisons st)\<rparr>
               else
                 let toSave = AnalysisResult.extend r (SavedComparison.fields uuid now)
                 in st\<lparr>savedComparisons := toSave # savedComparisons st\<rparr>)"

definition deleteSaved :: "string \<Rightarrow> app_state \<Rightarrow> app_state" where
  "deleteSaved target st =
     st\<lparr>savedComparisons := filter (\<lambda>item. saved_id item \<noteq> target) (savedComparisons st)\<rparr>"

definition isCurrentResultSaved :: "app_state \<Rightarrow> bool" where
  "isCurrentResultSaved st =
     (case result st of
        None \<Rightarrow> False
      | Some r \<Rightarrow> list_ex (same_result r) (savedComparisons st))"

subsection \<open>calculateRealStats\<close>

definition duration_of :: "StatsPeriod \<Rightarrow> int" where
  "duration_of p =
     (case p of
        P24h \<Rightarrow> 24 * 60 * 60 * 1000
      | P7d \<Rightarrow> 7 * 24 * 60 * 60 * 1000
      | P30d \<Rightarrow> 30 * 24 * 60 * 60 * 1000)"

text \<open>
  The two counts are lengths of arrays and their difference is an integer of magnitude
  below \<open>2 ^ 32\<close>, all three exact in binary64 (lemma \<open>binary64_int\<close>); the division
  and the multiplication by 100 each round their result.
\<close>

definition calculateRealStats ::
  "int \<Rightarrow> StatsPeriod \<Rightarrow> HistoryItem list \<Rightarrow> SavedComparison list \<Rightarrow> RealStats" where
  "calculateRealStats now statsPeriod hist saved =
     (let duration = duration_of statsPeriod;
          periodCount = length (filter (\<lambda>h. now - h_timestamp h < duration) hist);
          previousPeriodCount =
            length (filter (\<lambda>h. now - h_timestamp h \<ge> duration \<and>
                                 now - h_timestamp h < duration * 2) hist);
          trendVal =
            (if previousPeriodCount = 0 then (if periodCount > 0 then 100 else 0)
             else Math_round
               (binary64 (binary64 ((of_nat periodCount - of_nat previousPeriodCount)
                                     / of_nat previousPeriodCount) * 100)));
          trendStr = (if trendVal \<ge> 0 then ''+'' else '''') @ string_of_int trendVal @ ''%'';
          savedPeriodCount = length (filter (\<lambda>s. now - savedAt s < duration) saved)
      in \<lparr>searches = periodCount, savedCount = savedPeriodCount, trend = trendStr\<rparr>)"

section \<open>Persona selection (ComparisonResults component)\<close>

text \<open>
  The three state variables of the persona panel. The write of the chosen id to
  \<^verbatim>\<open>localStorage\<close> is outside this state (its exception is caught and read by none
  of the three). The panel is rendered only for a result with a record, so
  \<^verbatim>\<open>handlePersonaSelect\<close> always makes the request.
\<close>

record persona_state =
  selectedPersona :: "string option"
  personaResult :: "json option"
  loadingPersona :: bool

definition handlePersonaSelect_begin :: "string \<Rightarrow> persona_state \<Rightarrow> persona_state" where
  "handlePersonaSelect_begin personaId st =
     st\<lparr>selectedPersona := Some personaId, loadingPersona := True, personaResult := None\<rparr>"

definition handlePersonaSelect_settle :: "js_error + json \<Rightarrow> persona_state \<Rightarrow> persona_state" where
  "handlePersonaSelect_settle outcome st =
     (case outcome of
        Inr res \<Rightarrow> st\<lparr>personaResult := Some res, loadingPersona := False\<rparr>
      | Inl err \<Rightarrow> st\<lparr>loadingPersona := False\<rparr>)"

text \<open>
  The handler is asynchronous: its first part runs when a persona is selected, its
  second part when the request made for that selection settles. An event is either a
  selection (label, id) or the settling of the request of the selection with the given
  id, with what the model answered. Beside the component state a run keeps the requests
  in flight, as (id, label) in dispatch order; settling a request that is not in flight
  is no event of the program and changes nothing.
\<close>

datatype persona_event =
    Select string string
  | Settle string "js_error + GenerateContentResponse"

fun take_pending :: "string \<Rightarrow> (string \<times> string) list \<Rightarrow> (string \<times> (string \<times> string) list) option" where
  "take_pending pid [] = None"
| "take_pending pid ((p, l) # ps) =
     (if p = pid then Some (l, ps)
      else map_option (\<lambda>(l', ps'). (l', (p, l) # ps')) (take_pending pid ps))"

fun persona_step ::
  "json \<Rightarrow> persona_state \<times> (string \<times> string) list \<Rightarrow> persona_event \<Rightarrow>
   persona_state \<times> (string \<times> string) list" where
  "persona_step context (st, pending) (Select personaLabel personaId) =
     (handlePersonaSelect_begin personaId st, pending @ [(personaId, personaLabel)])"
| "persona_step context (st, pending) (Settle personaId response) =
     (case take_pending personaId pending of
        None \<Rightarrow> (st, pending)
      | Some (personaLabel, pending') \<Rightarrow>
          (handlePersonaSelect_settle (getPersonaAnalysis context personaLabel response) st,
           pending'))"

definition persona_run ::
  "json \<Rightarrow> persona_state \<times> (string \<times> string) list \<Rightarrow> persona_event list \<Rightarrow>
   persona_state \<times> (string \<times> string) list" where
  "persona_run context s es = foldl (persona_step context) s es"

section \<open>Notions of the specification and sample inputs\<close>

text \<open>The logical identity of a result: its query and its timestamp.\<close>

definition result_key :: "'a AnalysisResult_scheme \<Rightarrow> string \<times> int option" where
  "result_key r = (query r, timestamp r)"

text \<open>Removing the first element that satisfies a predicate.\<close>

fun remove_first :: "('a \<Rightarrow> bool) \<Rightarrow> 'a list \<Rightarrow> 'a list" where
  "remove_first P [] = []"
| "remove_first P (x # xs) = (if P x then xs else x # remove_first P xs)"

text \<open>A result with a record, and a state that shows it after two searches.\<close>

definition example_result :: AnalysisResult where
  "example_result =
     \<lparr>data = Some (JObject []), sources = [], rawText = None,
      query = ''A vs B'', timestamp = Some 5\<rparr>"

definition example_state :: app_state where
  "example_state =
     \<lparr>st_query = ''A vs B'', loadingState = SUCCESS, result = Some example_result,
      error = None, showSuggestions = False,
      history = [\<lparr>h_query = ''C vs D'', h_timestamp = 7\<rparr>,
                 \<lparr>h_query = ''A vs B'', h_timestamp = 5\<rparr>],
      savedComparisons = [], view = Home\<rparr>"

text \<open>A source whose uri is present and not empty.\<close>

definition usable_uri :: "GroundingSource \<Rightarrow> bool" where
  "usable_uri s = (case uri s of None \<Rightarrow> False | Some u \<Rightarrow> u \<noteq> [])"

text \<open>The web references of the chunks that have one, in order.\<close>

definition web_refs :: "GroundingChunk list option \<Rightarrow> WebRef list" where
  "web_refs chunks = (case chunks of None \<Rightarrow> [] | Some cs \<Rightarrow> List.map_filter web cs)"

text \<open>A text with an opening brace and, somewhere after it, a closing brace.\<close>

definition has_brace_span :: "string \<Rightarrow> bool" where
  "has_brace_span text =
     (\<exists>pre mid post. text = pre @ CHR ''{'' # mid @ CHR ''}'' # post)"

text \<open>The counts of the two windows, as the specification words them.\<close>

definition current_count :: "int \<Rightarrow> int \<Rightarrow> HistoryItem list \<Rightarrow> nat" where
  "current_count now window hist =
     length (filter (\<lambda>h. now - h_timestamp h < window) hist)"

definition previous_count :: "int \<Rightarrow> int \<Rightarrow> HistoryItem list \<Rightarrow> nat" where
  "previous_count now window hist =
     length (filter (\<lambda>h. window \<le> now - h_timestamp h \<and> now - h_timestamp h < 2 * window) hist)"

text \<open>The relative change of the specification's formula, in exact arithmetic.\<close>

definition relative_change :: "nat \<Rightarrow> nat \<Rightarrow> rat" where
  "relative_change current previous =
     (of_nat current - of_nat previous) / of_nat previous * 100"

text \<open>
  The double that \<^verbatim>\<open>calculateRealStats\<close> passes to \<^verbatim>\<open>Math.round\<close>, the trend
  value and the trend text, as functions of the two counts.
\<close>

definition percent_double :: "nat \<Rightarrow> nat \<Rightarrow> rat" where
  "percent_double current previous =
     binary64 (binary64 ((of_nat current - of_nat previous) / of_nat previous) * 100)"

definition trend_percent :: "nat \<Rightarrow> nat \<Rightarrow> int" where
  "trend_percent current previous =
     (if previous > 0 then Math_round (percent_double current previous)
      else if current > 0 then 100 else 0)"

definition trend_text :: "int \<Rightarrow> string" where
  "trend_text v = (if v \<ge> 0 then ''+'' else '''') @ string_of_int v @ ''%''"

text \<open>Two histories read at the end of day 10 with the 24 hour window.\<close>

definition one_day :: int where
  "one_day = 24 * 60 * 60 * 1000"

definition rising_history :: "HistoryItem list" where
  "rising_history =
     [\<lparr>h_query = ''a'', h_timestamp = 10 * one_day - 1\<rparr>,
      \<lparr>h_query = ''b'', h_timestamp = 10 * one_day - 2\<rparr>,
      \<lparr>h_query = ''c'', h_timestamp = 10 * one_day - 3\<rparr>]"

definition falling_history :: "HistoryItem list" where
  "falling_history =
     [\<lparr>h_query = ''a'', h_timestamp = 10 * one_day - 1\<rparr>,
      \<lparr>h_query = ''b'', h_timestamp = 10 * one_day - 2\<rparr>,
      \<lparr>h_query = ''c'', h_timestamp = 9 * one_day\<rparr>,
      \<lparr>h_query = ''d'', h_timestamp = 9 * one_day - 1\<rparr>,
      \<lparr>h_query = ''e'', h_timestamp = 9 * one_day - 2\<rparr>,
      \<lparr>h_query = ''f'', h_timestamp = 8 * one_day + 1\<rparr>]"

text \<open>
  A history with \<open>c\<close> entries in the last 24 hours before the end of day 10 and
  \<open>p\<close> entries in the 24 hours before those.
\<close>

definition history_of_counts :: "nat \<Rightarrow> nat \<Rightarrow> HistoryItem list" where
  "history_of_counts c p =
     replicate c \<lparr>h_query = ''a'', h_timestamp = 10 * one_day - 1\<rparr> @
     replicate p \<lparr>h_query = ''b'', h_timestamp = 9 * one_day - 1\<rparr>"

text \<open>A response whose first citation has a web reference without uri.\<close>

definition cited_without_uri :: GenerateContentResponse where
  "cited_without_uri =
     \<lparr>response_text = Some ''PS5 vence'',
      groundingChunks =
        Some [\<lparr>web = Some \<lparr>web_title = Some ''Loja'', web_uri = None\<rparr>\<rparr>,
              \<lparr>web = None\<rparr>,
              \<lparr>web = Some \<lparr>web_title = None, web_uri = Some ''https://a.example''\<rparr>\<rparr>]\<rparr>"

text \<open>The persona panel before any selection.\<close>

definition idle_persona :: persona_state where
  "idle_persona = \<lparr>selectedPersona = None, personaResult = None, loadingPersona = False\<rparr>"

text \<open>Shorthands to write a JSON value with its names and strings as texts.\<close>

definition jobj :: "(string \<times> json) list \<Rightarrow> json" where
  "jobj ms = JObject (map (\<lambda>(k, v). (map of_char k, v)) ms)"

definition jnum :: "int \<Rightarrow> json" where
  "jnum i = JNumber (of_int i)"

text \<open>A comparison record with every field of \<^verbatim>\<open>ComparisonData\<close>, and its JSON text.\<close>

definition sample_record :: json where
  "sample_record =
     jobj [
       (''products'', JArray [
          jobj [(''name'', js_string ''PS5''), (''priceEstimate'', js_string ''R$ 3500''),
                (''pros'', JArray [js_string ''Exclusivos'']),
                (''cons'', JArray [js_string ''Preco''])],
          jobj [(''name'', js_string ''Xbox''), (''priceEstimate'', js_string ''R$ 3300''),
                (''pros'', JArray [js_string ''Game Pass'']),
                (''cons'', JArray [js_string ''Poucos exclusivos''])]]),
       (''summary'', js_string ''Dois consoles.''),
       (''verdict'', js_string ''PS5 vence.''),
       (''rivalryScore'', jnum 85),
       (''rivalryText'', js_string ''Alta''),
       (''personas'', JArray [
          jobj [(''id'', js_string ''p1''), (''label'', js_string ''Gamer''),
                (''description'', js_string ''Joga muito''), (''icon'', js_string ''gamepad'')],
          jobj [(''id'', js_string ''p2''), (''label'', js_string ''Estudante''),
                (''description'', js_string ''Pouco dinheiro''), (''icon'', js_string ''student'')],
          jobj [(''id'', js_string ''p3''), (''label'', js_string ''Familia''),
                (''description'', js_string ''Casa cheia''), (''icon'', js_string ''home'')],
          jobj [(''id'', js_string ''p4''), (''label'', js_string ''Economico''),
                (''description'', js_string ''Quer pagar pouco''), (''icon'', js_string ''wallet'')]]),
       (''suggestedPersona'', js_string ''p1''),
       (''comparisonTable'', JArray [
          jobj [(''feature'', js_string ''Preco''),
                (''values'', JArray [js_string ''R$ 3500'', js_string ''R$ 3300'']),
                (''winnerIndex'', jnum 1), (''isKeyDifference'', JBool True)]]),
       (''scores'', JArray [
          jobj [(''subject'', js_string ''Desempenho''), (''prod0'', jnum 90),
                (''prod1'', jnum 85), (''fullMark'', jnum 100)]])]"

definition sample_members :: string where
  \<open>sample_members =
     ''"products":[{"name":"PS5","priceEstimate":"R$ 3500","pros":["Exclusivos"],"cons":["Preco"]},'' @
     ''{"name":"Xbox","priceEstimate":"R$ 3300","pros":["Game Pass"],"cons":["Poucos exclusivos"]}],'' @
     ''"summary":"Dois consoles.","verdict":"PS5 vence.","rivalryScore":85,"rivalryText":"Alta",'' @
     ''"personas":[{"id":"p1","label":"Gamer","description":"Joga muito","icon":"gamepad"},'' @
     ''{"id":"p2","label":"Estudante","description":"Pouco dinheiro","icon":"student"},'' @
     ''{"id":"p3","label":"Familia","description":"Casa cheia","icon":"home"},'' @
     ''{"id":"p4","label":"Economico","description":"Quer pagar pouco","icon":"wallet"}],'' @
     ''"suggestedPersona":"p1",'' @
     ''"comparisonTable":[{"feature":"Preco","values":["R$ 3500","R$ 3300"],"winnerIndex":1,"isKeyDifference":true}],'' @
     ''"scores":[{"subject":"Desempenho","prod0":90,"prod1":85,"fullMark":100}]''\<close>

definition sample_json :: string where
  "sample_json = ''{'' @ sample_members @ ''}''"

text \<open>A response of the model with the given text and no grounding.\<close>

definition plain_response :: "string \<Rightarrow> js_error + GenerateContentResponse" where
  "plain_response t = Inr \<lparr>response_text = Some t, groundingChunks = None\<rparr>"

text \<open>The verdict returned for a response without a brace span.\<close>

definition fallback_verdict :: "string \<Rightarrow> json" where
  "fallback_verdict t =
     JObject [(map of_char ''winner'', js_string ''Indeterminado''),
              (map of_char ''reason'', js_string t)]"

text \<open>A history of 20 entries, newest first, and a state that holds it.\<close>

definition full_history :: "HistoryItem list" where
  "full_history =
     map (\<lambda>n. \<lparr>h_query = replicate n (CHR ''x''), h_timestamp = 100 - int n\<rparr>) [1..<21]"

definition full_state :: app_state where
  "full_state = example_state\<lparr>history := full_history\<rparr>"

section \<open>Properties of the library functions and of the handlers\<close>

subsection \<open>The fuel of the JSON reader\<close>

lemma dropWhile_length_less:
  "dropWhile P xs = y # ys \<Longrightarrow> length ys < length xs"
  using length_dropWhile_le [of P xs] by simp

lemma parse_chars_length:
  "parse_chars s = Some (k, r) \<Longrightarrow> length r < length s"
proof (induction s arbitrary: k r rule: parse_chars.induct)
  case 1
  then show ?case by simp
next
  case (2 c cs)
  then show ?case
    by (auto simp: cons_unit_def split: if_splits list.splits option.splits) fastforce+
qed

lemma strip_prefix_length:
  "strip_prefix p s = Some r \<Longrightarrow> length r \<le> length s"
  by (auto simp: strip_prefix_def split: if_splits)

lemma opt_minus_length: "opt_minus s = (b, r) \<Longrightarrow> length r \<le> length s"
  by (auto simp: opt_minus_def split: list.splits if_splits)

lemma opt_sign_length: "opt_sign s = (b, r) \<Longrightarrow> length r \<le> length s"
  by (auto simp: opt_sign_def split: list.splits if_splits)

lemma parse_fraction_length: "parse_fraction s = Some (fs, r) \<Longrightarrow> length r \<le> length s"
  by (auto simp: parse_fraction_def le_SucI length_dropWhile_le split: list.splits if_splits)

lemma parse_exponent_length: "parse_exponent s = Some (e, r) \<Longrightarrow> length r \<le> length s"
proof -
  have "length (dropWhile is_digit r1) \<le> Suc (length t)" if "opt_sign t = (b, r1)" for b r1 t
    using opt_sign_length [OF that] length_dropWhile_le [of is_digit r1] by simp
  then show "parse_exponent s = Some (e, r) \<Longrightarrow> length r \<le> length s"
    by (auto simp: parse_exponent_def Let_def split: list.splits if_splits prod.splits)
qed

lemma parse_number_length:
  assumes "parse_number s = Some (x, r)"
  shows "length r \<le> length s"
proof -
  obtain neg cs1 where m: "opt_minus s = (neg, cs1)" by (cases "opt_minus s")
  from assms m obtain fs cs3 e where
    f: "parse_fraction (dropWhile is_digit cs1) = Some (fs, cs3)" and
    x: "parse_exponent cs3 = Some (e, r)"
    by (auto simp: parse_number_def Let_def split: if_splits option.splits prod.splits)
  have "length r \<le> length cs3" using x by (rule parse_exponent_length)
  also have "\<dots> \<le> length (dropWhile is_digit cs1)" using f by (rule parse_fraction_length)
  also have "\<dots> \<le> length cs1" by (rule length_dropWhile_le)
  also have "\<dots> \<le> length s" using m by (rule opt_minus_length)
  finally show ?thesis .
qed

lemma parse_rest_length:
  "(\<forall>s v r. parse_value n s = Some (v, r) \<longrightarrow> length r \<le> length s)
 \<and> (\<forall>s vs r. parse_elements n s = Some (vs, r) \<longrightarrow> length r \<le> length s)
 \<and> (\<forall>s ms r. parse_members n s = Some (ms, r) \<longrightarrow> length r \<le> length s)"
proof (induction n)
  case 0
  then show ?case by simp
next
  case (Suc n)
  have V: "length r \<le> length s" if "parse_value (Suc n) s = Some (v, r)" for s v r
  proof -
    from that obtain c t where d: "dropWhile is_ws s = c # t"
      by (cases "dropWhile is_ws s") auto
    have t: "length t < length s" using d by (rule dropWhile_length_less)
    consider (obj) "c = CHR ''{''" | (arr) "c \<noteq> CHR ''{''" "c = CHR ''[''"
      | (str) "c \<noteq> CHR ''{''" "c \<noteq> CHR ''[''" "c = CHR 0x22"
      | (oth) "c \<noteq> CHR ''{''" "c \<noteq> CHR ''[''" "c \<noteq> CHR 0x22"
      by blast
    then show ?thesis
    proof cases
      case obj
      with that d obtain e t1 where e: "dropWhile is_ws t = e # t1"
        by (cases "dropWhile is_ws t") auto
      have t1: "length t1 < length t" using e by (rule dropWhile_length_less)
      show ?thesis
      proof (cases "e = CHR ''}''")
        case True
        with that d obj e have "r = t1" by simp
        with t t1 show ?thesis by simp
      next
        case False
        with that d obj e obtain ms where "parse_members n (e # t1) = Some (ms, r)"
          by auto
        with Suc.IH have "length r \<le> length (e # t1)" by blast
        with t t1 show ?thesis by simp
      qed
    next
      case arr
      with that d obtain e t1 where e: "dropWhile is_ws t = e # t1"
        by (cases "dropWhile is_ws t") auto
      have t1: "length t1 < length t" using e by (rule dropWhile_length_less)
      show ?thesis
      proof (cases "e = CHR '']''")
        case True
        with that d arr e have "r = t1" by simp
        with t t1 show ?thesis by simp
      next
        case False
        with that d arr e obtain vs where "parse_elements n (e # t1) = Some (vs, r)"
          by auto
        with Suc.IH have "length r \<le> length (e # t1)" by blast
        with t t1 show ?thesis by simp
      qed
    next
      case str
      with that d obtain k where "parse_chars t = Some (k, r)"
        by auto
      then have "length r < length t" by (rule parse_chars_length)
      with t show ?thesis by simp
    next
      case oth
      have "length r \<le> length (c # t)"
        using that d oth
        by (auto split: option.splits dest: strip_prefix_length parse_number_length)
      with t show ?thesis by simp
    qed
  qed
  have E: "length r \<le> length s" if "parse_elements (Suc n) s = Some (vs, r)" for s vs r
  proof -
    from that obtain v t where v: "parse_value n s = Some (v, t)"
      by (auto split: option.splits)
    with Suc.IH have t: "length t \<le> length s" by blast
    from that v obtain c t1 where d: "dropWhile is_ws t = c # t1"
      by (cases "dropWhile is_ws t") auto
    have t1: "length t1 < length t" using d by (rule dropWhile_length_less)
    show ?thesis
    proof (cases "c = CHR '',''")
      case True
      with that v d obtain ws where "parse_elements n t1 = Some (ws, r)"
        by auto
      with Suc.IH have "length r \<le> length t1" by blast
      with t t1 show ?thesis by simp
    next
      case False
      with that v d have "r = t1" by (auto split: if_splits)
      with t t1 show ?thesis by simp
    qed
  qed
  have M: "length r \<le> length s" if "parse_members (Suc n) s = Some (ms, r)" for s ms r
  proof -
    from that obtain q t where d: "dropWhile is_ws s = q # t"
      by (cases "dropWhile is_ws s") auto
    have t: "length t < length s" using d by (rule dropWhile_length_less)
    from that d have q: "q = CHR 0x22" by (auto split: if_splits)
    from that d q obtain k t1 where k: "parse_chars t = Some (k, t1)"
      by (auto split: option.splits)
    have t1: "length t1 < length t" using k by (rule parse_chars_length)
    from that d q k obtain c t2 where d2: "dropWhile is_ws t1 = c # t2"
      by (cases "dropWhile is_ws t1") auto
    have t2: "length t2 < length t1" using d2 by (rule dropWhile_length_less)
    from that d q k d2 have c: "c = CHR '':''" by (auto split: if_splits)
    from that d q k d2 c obtain v t3 where v: "parse_value n t2 = Some (v, t3)"
      by (auto split: option.splits)
    with Suc.IH have t3: "length t3 \<le> length t2" by blast
    from that d q k d2 c v obtain e t4 where d4: "dropWhile is_ws t3 = e # t4"
      by (cases "dropWhile is_ws t3") auto
    have t4: "length t4 < length t3" using d4 by (rule dropWhile_length_less)
    show ?thesis
    proof (cases "e = CHR '',''")
      case True
      with that d q k d2 c v d4 obtain ws where "parse_members n t4 = Some (ws, r)"
        by auto
      with Suc.IH have "length r \<le> length t4" by blast
      with t t1 t2 t3 t4 show ?thesis by simp
    next
      case False
      with that d q k d2 c v d4 have "r = t4" by (auto split: if_splits)
      with t t1 t2 t3 t4 show ?thesis by simp
    qed
  qed
  from V E M show ?case by blast
qed

lemma parse_value_rest: "parse_value n s = Some (v, r) \<Longrightarrow> length r \<le> length s"
  using parse_rest_length [of n] by blast

lemma parse_value_step:
  assumes d: "dropWhile is_ws s = c # t" and i: "dropWhile is_ws t = e # t1"
    and pm: "parse_members n (e # t1) = parse_members m (e # t1)"
    and pe: "parse_elements n (e # t1) = parse_elements m (e # t1)"
  shows "parse_value (Suc n) s = parse_value (Suc m) s"
proof (cases "c = CHR ''{''")
  case True
  show ?thesis
    unfolding parse_value.simps d i list.case using True pm by (simp only: simp_thms if_True if_False)
next
  case False
  show ?thesis
  proof (cases "c = CHR ''[''")
    case True
    show ?thesis
      unfolding parse_value.simps d i list.case using True False pe by (simp only: simp_thms if_True if_False)
  next
    case nb: False
    show ?thesis
      unfolding parse_value.simps d i list.case using False nb by (simp only: simp_thms if_True if_False)
  qed
qed

lemma parse_elements_step:
  assumes v: "parse_value n s = parse_value m s"
    and r: "\<And>x t c t1. parse_value m s = Some (x, t) \<Longrightarrow> dropWhile is_ws t = c # t1 \<Longrightarrow>
             parse_elements n t1 = parse_elements m t1"
  shows "parse_elements (Suc n) s = parse_elements (Suc m) s"
proof (cases "parse_value m s")
  case None
  with v show ?thesis by (simp only: parse_elements.simps option.case)
next
  case (Some p)
  obtain x t where p: "p = (x, t)" by (cases p)
  show ?thesis
  proof (cases "dropWhile is_ws t")
    case Nil
    with v Some p show ?thesis
      by (simp only: parse_elements.simps option.case prod.case list.case)
  next
    case (Cons c u)
    from r [OF Some [unfolded p] Cons] v Some p Cons show ?thesis
      by (simp only: parse_elements.simps option.case prod.case list.case)
  qed
qed

lemma parse_members_step:
  assumes v: "\<And>q t k u c w. dropWhile is_ws s = q # t \<Longrightarrow> parse_chars t = Some (k, u) \<Longrightarrow>
             dropWhile is_ws u = c # w \<Longrightarrow> parse_value n w = parse_value m w"
    and r: "\<And>q t k u c w x y d z. dropWhile is_ws s = q # t \<Longrightarrow> parse_chars t = Some (k, u) \<Longrightarrow>
             dropWhile is_ws u = c # w \<Longrightarrow> parse_value m w = Some (x, y) \<Longrightarrow>
             dropWhile is_ws y = d # z \<Longrightarrow> parse_members n z = parse_members m z"
  shows "parse_members (Suc n) s = parse_members (Suc m) s"
proof (cases "dropWhile is_ws s")
  case Nil
  then show ?thesis by (simp only: parse_members.simps list.case)
next
  case (Cons q t)
  show ?thesis
  proof (cases "parse_chars t")
    case None
    with Cons show ?thesis
      by (simp only: parse_members.simps list.case option.case)
  next
    case (Some p)
    obtain k u where p: "p = (k, u)" by (cases p)
    note ku = Some [unfolded p]
    show ?thesis
    proof (cases "dropWhile is_ws u")
      case Nil
      with Cons ku show ?thesis
        by (simp only: parse_members.simps list.case option.case prod.case)
    next
      case colon: (Cons c w)
      note vw = v [OF Cons ku colon]
      show ?thesis
      proof (cases "parse_value m w")
        case None
        with vw Cons ku colon show ?thesis
          by (simp only: parse_members.simps list.case option.case prod.case)
      next
        case val: (Some pv)
        obtain x y where pv: "pv = (x, y)" by (cases pv)
        note xy = val [unfolded pv]
        show ?thesis
        proof (cases "dropWhile is_ws y")
          case Nil
          with vw Cons ku colon xy show ?thesis
            by (simp only: parse_members.simps list.case option.case prod.case)
        next
          case sep: (Cons d z)
          from r [OF Cons ku colon xy sep] vw Cons ku colon xy sep show ?thesis
            by (simp only: parse_members.simps list.case option.case prod.case)
        qed
      qed
    qed
  qed
qed

lemma parse_fuel:
  "(\<forall>s m. 2 * length s + 1 \<le> n \<and> 2 * length s + 1 \<le> m \<longrightarrow>
      parse_value n s = parse_value m s)
 \<and> (\<forall>s m. 2 * length s + 2 \<le> n \<and> 2 * length s + 2 \<le> m \<longrightarrow>
      parse_elements n s = parse_elements m s)
 \<and> (\<forall>s m. 2 * length s + 2 \<le> n \<and> 2 * length s + 2 \<le> m \<longrightarrow>
      parse_members n s = parse_members m s)"
proof (induction n)
  case 0
  then show ?case by simp
next
  case (Suc n)
  from Suc.IH have IHv: "parse_value n s = parse_value m s"
    if "2 * length s + 1 \<le> n" "2 * length s + 1 \<le> m" for s m
    using that by blast
  from Suc.IH have IHe: "parse_elements n s = parse_elements m s"
    if "2 * length s + 2 \<le> n" "2 * length s + 2 \<le> m" for s m
    using that by blast
  from Suc.IH have IHm: "parse_members n s = parse_members m s"
    if "2 * length s + 2 \<le> n" "2 * length s + 2 \<le> m" for s m
    using that by blast
  have V: "parse_value (Suc n) s = parse_value (Suc m) s"
    if b: "2 * length s \<le> n" "2 * length s \<le> m" for s m
  proof (cases "dropWhile is_ws s")
    case Nil
    then show ?thesis by (simp only: parse_value.simps list.case)
  next
    case (Cons c t)
    have t: "length t < length s" using Cons by (rule dropWhile_length_less)
    show ?thesis
    proof (cases "dropWhile is_ws t")
      case Nil
      with Cons show ?thesis
        by (cases "c = CHR ''{''"; cases "c = CHR ''[''";
            simp only: parse_value.simps list.case simp_thms if_True if_False)
    next
      case inner: (Cons e u)
      have "length u < length t" using inner by (rule dropWhile_length_less)
      with t b have le: "2 * length (e # u) + 2 \<le> n" "2 * length (e # u) + 2 \<le> m"
        by simp_all
      show ?thesis
        using Cons inner IHm [OF le] IHe [OF le] by (rule parse_value_step)
    qed
  qed
  have E: "parse_elements (Suc n) s = parse_elements (Suc m) s"
    if b: "2 * length s + 1 \<le> n" "2 * length s + 1 \<le> m" for s m
  proof (rule parse_elements_step)
    show "parse_value n s = parse_value m s"
      using b by (rule IHv)
  next
    fix x t c u
    assume v: "parse_value m s = Some (x, t)" and d: "dropWhile is_ws t = c # u"
    have "length t \<le> length s" using v by (rule parse_value_rest)
    moreover have "length u < length t" using d by (rule dropWhile_length_less)
    ultimately have "2 * length u + 2 \<le> n" "2 * length u + 2 \<le> m"
      using b by simp_all
    then show "parse_elements n u = parse_elements m u" by (rule IHe)
  qed
  have M: "parse_members (Suc n) s = parse_members (Suc m) s"
    if b: "2 * length s + 1 \<le> n" "2 * length s + 1 \<le> m" for s m
  proof (rule parse_members_step)
    fix q t k u c w
    assume d: "dropWhile is_ws s = q # t" and k: "parse_chars t = Some (k, u)"
      and c: "dropWhile is_ws u = c # w"
    have "length w < length s"
      using dropWhile_length_less [OF d] parse_chars_length [OF k] dropWhile_length_less [OF c]
      by simp
    with b have "2 * length w + 1 \<le> n" "2 * length w + 1 \<le> m" by simp_all
    then show "parse_value n w = parse_value m w" by (rule IHv)
  next
    fix q t k u c w x y d z
    assume d: "dropWhile is_ws s = q # t" and k: "parse_chars t = Some (k, u)"
      and c: "dropWhile is_ws u = c # w" and v: "parse_value m w = Some (x, y)"
      and e: "dropWhile is_ws y = d # z"
    have "length z < length s"
      using dropWhile_length_less [OF d] parse_chars_length [OF k] dropWhile_length_less [OF c]
        parse_value_rest [OF v] dropWhile_length_less [OF e]
      by simp
    with b have "2 * length z + 2 \<le> n" "2 * length z + 2 \<le> m" by simp_all
    then show "parse_members n z = parse_members m z" by (rule IHm)
  qed
  show ?case
  proof (intro conjI allI impI)
    fix s :: string and m
    assume "2 * length s + 1 \<le> Suc n \<and> 2 * length s + 1 \<le> m"
    then obtain m' where m: "m = Suc m'" and b: "2 * length s \<le> n" "2 * length s \<le> m'"
      by (cases m) auto
    show "parse_value (Suc n) s = parse_value m s"
      unfolding m using b by (rule V)
  next
    fix s :: string and m
    assume "2 * length s + 2 \<le> Suc n \<and> 2 * length s + 2 \<le> m"
    then obtain m' where m: "m = Suc m'" and b: "2 * length s + 1 \<le> n" "2 * length s + 1 \<le> m'"
      by (cases m) auto
    show "parse_elements (Suc n) s = parse_elements m s"
      unfolding m using b by (rule E)
  next
    fix s :: string and m
    assume "2 * length s + 2 \<le> Suc n \<and> 2 * length s + 2 \<le> m"
    then obtain m' where m: "m = Suc m'" and b: "2 * length s + 1 \<le> n" "2 * length s + 1 \<le> m'"
      by (cases m) auto
    show "parse_members (Suc n) s = parse_members m s"
      unfolding m using b by (rule M)
  qed
qed

lemma JSON_parse_fuel:
  assumes "2 * length s + 2 \<le> n"
  shows "JSON_parse s =
     (case parse_value n s of
        None \<Rightarrow> None
      | Some (v, rest) \<Rightarrow> if dropWhile is_ws rest = [] then Some v else None)"
proof -
  from assms have "parse_value (2 * length s + 2) s = parse_value n s"
    using parse_fuel [of "2 * length s + 2"] by simp
  then show ?thesis
    by (simp only: JSON_parse_def)
qed

subsection \<open>Arrays, history and bookmarks\<close>

lemma findIndex_ge0_iff: "findIndex P xs \<ge> 0 \<longleftrightarrow> (\<exists>x\<in>set xs. P x)"
  by (induction xs) (auto simp: Let_def)

lemma filter_from_all: "(\<And>x i. i \<ge> k \<Longrightarrow> f x i) \<Longrightarrow> filter_from k f xs = xs"
  by (induction xs arbitrary: k) auto

lemma filter_from_findIndex:
  "findIndex P xs \<ge> 0 \<Longrightarrow>
   filter_from k (\<lambda>_ i. int i \<noteq> int k + findIndex P xs) xs = remove_first P xs"
proof (induction xs arbitrary: k)
  case Nil
  then show ?case by simp
next
  case (Cons x xs)
  show ?case
  proof (cases "P x")
    case True
    have "filter_from (Suc k) (\<lambda>_ i. int i \<noteq> int k) xs = xs"
      by (rule filter_from_all) auto
    with True show ?thesis by simp
  next
    case False
    with Cons.prems have ge: "findIndex P xs \<ge> 0"
      by (auto simp: Let_def split: if_splits)
    have "int (Suc k) + findIndex P xs = int k + (findIndex P xs + 1)" by simp
    then have "filter_from (Suc k) (\<lambda>_ i. int i \<noteq> int k + (findIndex P xs + 1)) xs =
      remove_first P xs"
      using Cons.IH [OF ge, of "Suc k"] by metis
    with False ge show ?thesis
      by (simp add: Let_def)
  qed
qed

lemma filter_indexed_findIndex:
  "findIndex P xs \<ge> 0 \<Longrightarrow>
   filter_indexed (\<lambda>_ i. int i \<noteq> findIndex P xs) xs = remove_first P xs"
  using filter_from_findIndex [of P xs 0] by (simp add: filter_indexed_def)

lemma same_result_key: "same_result r item \<longleftrightarrow> result_key item = result_key r"
  by (auto simp: same_result_def result_key_def)

lemma remove_first_distinct:
  "distinct (map g xs) \<Longrightarrow> remove_first (\<lambda>x. g x = k) xs = filter (\<lambda>x. g x \<noteq> k) xs"
proof (induction xs)
  case Nil
  then show ?case by simp
next
  case (Cons x xs)
  then have "g x = k \<Longrightarrow> filter (\<lambda>x. g x \<noteq> k) xs = xs"
    by (auto intro!: filter_True simp: image_iff)
  with Cons show ?case by auto
qed

lemma result_key_extend: "result_key (AnalysisResult.extend r e) = result_key r"
  by (simp add: result_key_def AnalysisResult.extend_def)

lemma finalQuery_handleSearch:
  "trim (finalQuery sq st) \<noteq> [] \<Longrightarrow>
   finalQuery sq (handleSearch sq now outcome st) = finalQuery sq st"
  by (auto simp add: handleSearch_def handleSearch_settle_def handleSearch_begin_def Let_def
      finalQuery_def split: sum.splits option.splits)

lemma history_handleSearch_ok:
  "trim (finalQuery sq st) \<noteq> [] \<Longrightarrow>
   history (handleSearch sq now (Inr res) st) = recordHistory (finalQuery sq st) now (history st)"
  by (simp add: handleSearch_def handleSearch_settle_def handleSearch_begin_def Let_def)

lemma recordHistory_head:
  "recordHistory q t h ! 0 = \<lparr>h_query = q, h_timestamp = t\<rparr>"
  by (simp add: recordHistory_def)

lemma recordHistory_unique:
  "filter (\<lambda>i. h_query i = q) (recordHistory q t h) = [\<lparr>h_query = q, h_timestamp = t\<rparr>]"
proof -
  have "filter (\<lambda>i. h_query i = q) (take 19 (filter (\<lambda>i. h_query i \<noteq> q) h)) = []"
    by (auto simp: filter_empty_conv dest: in_set_takeD)
  then show ?thesis
    by (simp add: recordHistory_def take_Cons')
qed

lemma recordHistory_length: "length (recordHistory q t h) \<le> 20"
  by (simp add: recordHistory_def)

lemma recordHistory_full:
  assumes "length h = 20" "q \<notin> h_query ` set h"
  shows "recordHistory q t h = \<lparr>h_query = q, h_timestamp = t\<rparr> # butlast h"
proof -
  from assms(2) have "filter (\<lambda>i. h_query i \<noteq> q) h = h"
    by (auto intro!: filter_True)
  with assms(1) show ?thesis
    by (simp add: recordHistory_def take_Cons' butlast_conv_take)
qed

lemma history_handleSearch_le:
  "length (history st) \<le> 20 \<Longrightarrow> length (history (handleSearch sq now outcome st)) \<le> 20"
  by (auto simp add: handleSearch_def handleSearch_settle_def handleSearch_begin_def Let_def
      recordHistory_length split: sum.splits)

lemma recordHistory_sorted:
  assumes "sorted_wrt (\<ge>) (map h_timestamp h)" "\<forall>e\<in>set h. h_timestamp e \<le> now"
  shows "sorted_wrt (\<ge>) (map h_timestamp (recordHistory q now h))"
proof -
  have "sorted_wrt (\<ge>) (map h_timestamp (filter (\<lambda>item. h_query item \<noteq> q) h))"
    using assms(1) by (simp add: sorted_wrt_map sorted_wrt_filter)
  with assms(2) have "sorted_wrt (\<ge>) (map h_timestamp
      (\<lparr>h_query = q, h_timestamp = now\<rparr> # filter (\<lambda>item. h_query item \<noteq> q) h))"
    by auto
  then show ?thesis
    unfolding recordHistory_def Let_def
    by (simp only: take_map [symmetric] sorted_wrt_take)
qed

lemma last_is_oldest:
  assumes "sorted_wrt (\<ge>) (map h_timestamp h)" "e \<in> set h"
  shows "h_timestamp (last h) \<le> h_timestamp e"
proof -
  from assms(2) have ne: "h \<noteq> []" by auto
  then have l: "last h = h ! (length h - 1)" by (rule last_conv_nth)
  from assms(2) obtain i where i: "i < length h" "h ! i = e"
    by (auto simp: in_set_conv_nth)
  show ?thesis
  proof (cases "i = length h - 1")
    case True
    with i l show ?thesis by simp
  next
    case False
    with i have "i < length h - 1" by simp
    moreover have "length h - 1 < length h" using ne by simp
    ultimately have "h_timestamp (h ! (length h - 1)) \<le> h_timestamp (h ! i)"
      using assms(1) by (simp add: sorted_wrt_iff_nth_less del: One_nat_def)
    with i l show ?thesis by simp
  qed
qed

lemma full_history_sorted: "sorted_wrt (\<ge>) (map h_timestamp full_history)"
proof -
  have "sorted_wrt (<) [1..<21::nat]" by simp
  then have "sorted_wrt (\<lambda>a b. 100 - int a \<ge> 100 - int b) [1..<21]"
    by (rule sorted_wrt_mono_rel [rotated]) simp
  then show ?thesis
    by (simp add: full_history_def sorted_wrt_map o_def)
qed

lemma handleSearch_sorted:
  assumes "trim (finalQuery sq st) \<noteq> []"
    and "sorted_wrt (\<ge>) (map h_timestamp (history st))"
    and "\<forall>e\<in>set (history st). h_timestamp e \<le> now"
  shows "sorted_wrt (\<ge>) (map h_timestamp (history (handleSearch sq now (Inr res) st)))"
  using assms by (simp add: history_handleSearch_ok recordHistory_sorted)

lemma isSaved_key:
  "result st = Some r \<Longrightarrow>
   isCurrentResultSaved st \<longleftrightarrow> result_key r \<in> result_key ` set (savedComparisons st)"
  by (auto simp: isCurrentResultSaved_def list_ex_iff same_result_key intro: rev_image_eqI)

lemma toggleSave_falsy:
  "result st = Some r \<Longrightarrow> falsy (data r) \<Longrightarrow> toggleSave uuid now st = st"
  by (simp add: toggleSave_def)

lemma toggleSave_saved:
  assumes "result st = Some r" "\<not> falsy (data r)"
  shows "savedComparisons (toggleSave uuid now st) =
     (if result_key r \<in> result_key ` set (savedComparisons st)
      then remove_first (\<lambda>item. result_key item = result_key r) (savedComparisons st)
      else AnalysisResult.extend r (SavedComparison.fields uuid now) # savedComparisons st)"
proof -
  have eq: "same_result r = (\<lambda>item. result_key item = result_key r)"
    by (auto simp: same_result_key fun_eq_iff)
  have iff: "findIndex (same_result r) (savedComparisons st) \<ge> 0 \<longleftrightarrow>
      result_key r \<in> result_key ` set (savedComparisons st)"
    by (auto simp: findIndex_ge0_iff same_result_key intro: rev_image_eqI)
  show ?thesis
  proof (cases "result_key r \<in> result_key ` set (savedComparisons st)")
    case True
    with iff have ge: "findIndex (same_result r) (savedComparisons st) \<ge> 0" by simp
    from filter_indexed_findIndex [OF ge] True ge assms show ?thesis
      by (auto simp add: toggleSave_def Let_def eq)
  next
    case False
    with iff have "\<not> findIndex (same_result r) (savedComparisons st) \<ge> 0" by simp
    with False assms show ?thesis
      by (auto simp add: toggleSave_def Let_def)
  qed
qed

lemma toggleSave_result: "result (toggleSave uuid now st) = result st"
  by (simp add: toggleSave_def Let_def split: option.splits)

lemma toggleSave_keys:
  assumes "result st = Some r" "\<not> falsy (data r)" "distinct (map result_key (savedComparisons st))"
  shows "map result_key (savedComparisons (toggleSave uuid now st)) =
     (if result_key r \<in> result_key ` set (savedComparisons st)
      then filter (\<lambda>k. k \<noteq> result_key r) (map result_key (savedComparisons st))
      else result_key r # map result_key (savedComparisons st))"
  using assms
  by (simp add: toggleSave_saved remove_first_distinct result_key_extend filter_map o_def)

lemma toggleSave_distinct:
  assumes "result st = Some r" "\<not> falsy (data r)" "distinct (map result_key (savedComparisons st))"
  shows "distinct (map result_key (savedComparisons (toggleSave uuid now st)))"
  using assms by (auto simp: toggleSave_keys)

lemma toggleSave_flips:
  assumes "result st = Some r" "\<not> falsy (data r)" "distinct (map result_key (savedComparisons st))"
  shows "isCurrentResultSaved (toggleSave uuid now st) \<longleftrightarrow> \<not> isCurrentResultSaved st"
proof -
  have "result_key r \<in> set (map result_key (savedComparisons (toggleSave uuid now st))) \<longleftrightarrow>
        result_key r \<notin> set (map result_key (savedComparisons st))"
    unfolding toggleSave_keys [OF assms] by auto
  then show ?thesis
    using assms(1) by (simp add: isSaved_key toggleSave_result)
qed

lemma deleteSaved_distinct:
  "distinct (map result_key (savedComparisons st)) \<Longrightarrow>
   distinct (map result_key (savedComparisons (deleteSaved i st)))"
  by (simp add: deleteSaved_def distinct_map_filter)

lemma trim_example: "trim ''A vs B'' \<noteq> []"
  by (simp add: trim_def isWhiteSpace_def)

lemma bits_bounds: "0 < n \<Longrightarrow> 2 ^ (bits n - 1) \<le> n \<and> n < 2 ^ bits n"
proof (induction n rule: bits.induct)
  case (1 n)
  show ?case
  proof (cases "n div 2 = 0")
    case True
    with "1.prems" have "n = 1" by (simp add: div_eq_0_iff)
    then show ?thesis by (simp add: bits.simps)
  next
    case False
    with "1.prems" "1.IH" have ih: "2 ^ (bits (n div 2) - 1) \<le> n div 2" "n div 2 < 2 ^ bits (n div 2)"
      by auto
    from False have pos: "0 < bits (n div 2)" by (simp add: bits.simps)
    have b: "bits n = Suc (bits (n div 2))"
      using "1.prems" by (simp add: bits.simps)
    have "2 ^ (bits n - 1) = 2 * 2 ^ (bits (n div 2) - 1)"
      using pos b by (cases "bits (n div 2)") simp_all
    also have "\<dots> \<le> 2 * (n div 2)" using ih(1) by simp
    also have "\<dots> \<le> n" by simp
    finally have lo: "2 ^ (bits n - 1) \<le> n" .
    have "n < 2 * (n div 2) + 2" by presburger
    also have "\<dots> \<le> 2 * 2 ^ bits (n div 2)" using ih(2) by simp
    finally have "n < 2 ^ bits n" using b by simp
    with lo show ?thesis by simp
  qed
qed

lemma pow2_le_of_nat: "2 ^ k \<le> n \<Longrightarrow> (2::rat) ^ k \<le> rat_of_nat n"
proof -
  assume "2 ^ k \<le> n"
  then have "rat_of_nat (2 ^ k) \<le> rat_of_nat n" by (rule of_nat_mono)
  then show ?thesis by simp
qed

lemma of_nat_less_pow2: "n < 2 ^ k \<Longrightarrow> rat_of_nat n + 1 \<le> 2 ^ k"
proof -
  assume "n < 2 ^ k"
  then have "Suc n \<le> 2 ^ k" by simp
  then have "rat_of_nat (Suc n) \<le> rat_of_nat (2 ^ k)" by (rule of_nat_mono)
  then show ?thesis by simp
qed

lemma bits_pos: "0 < n \<Longrightarrow> 0 < bits n"
  by (simp add: bits.simps)

lemma exponent_bounds:
  assumes "0 < a"
  shows "2 powi exponent a \<le> a \<and> a < 2 powi (exponent a + 1)"
proof (cases "1 \<le> a")
  case True
  define n where "n = nat \<lfloor>a\<rfloor>"
  from True have n: "0 < n" "rat_of_nat n \<le> a" "a < rat_of_nat n + 1"
    unfolding n_def by (simp_all, linarith+)
  from bits_bounds [OF n(1)] have b: "2 ^ (bits n - 1) \<le> n" "n < 2 ^ bits n" by simp_all
  have e: "exponent a = int (bits n) - 1"
    using True by (simp add: exponent_def n_def)
  have e1: "2 powi exponent a = (2::rat) ^ (bits n - 1)"
    using bits_pos [OF n(1)] unfolding e by (simp add: power_int_def nat_diff_distrib')
  have e2: "2 powi (exponent a + 1) = (2::rat) ^ bits n"
    unfolding e by (simp add: power_int_def)
  have "(2::rat) ^ (bits n - 1) \<le> rat_of_nat n"
    using b(1) by (rule pow2_le_of_nat)
  moreover have "rat_of_nat n + 1 \<le> 2 ^ bits n"
    using b(2) by (rule of_nat_less_pow2)
  ultimately show ?thesis
    unfolding e1 e2 using n by linarith
next
  case False
  define y where "y = 1 / a"
  define m where "m = nat (\<lceil>y\<rceil> - 1)"
  from False assms have y: "1 < y" unfolding y_def by simp
  then have c: "2 \<le> \<lceil>y\<rceil>" by linarith
  then have m: "0 < m" "int m = \<lceil>y\<rceil> - 1" unfolding m_def by simp_all
  have "rat_of_int (int m) = rat_of_int \<lceil>y\<rceil> - 1"
    unfolding m(2) by simp
  then have mc: "rat_of_nat m = rat_of_int \<lceil>y\<rceil> - 1" by simp
  have ylo: "rat_of_nat m < y"
    unfolding mc using ceiling_correct [of y] by linarith
  have yhi: "y \<le> rat_of_nat m + 1"
    unfolding mc using ceiling_correct [of y] by linarith
  from bits_bounds [OF m(1)] have b: "2 ^ (bits m - 1) \<le> m" "m < 2 ^ bits m" by simp_all
  have e: "exponent a = - int (bits m)"
    using False by (simp add: exponent_def m_def y_def)
  have k: "0 < bits m" using m(1) by (rule bits_pos)
  have e1: "2 powi exponent a = 1 / (2::rat) ^ bits m"
    unfolding e by (simp add: power_int_minus field_simps)
  have e2: "2 powi (exponent a + 1) = 1 / (2::rat) ^ (bits m - 1)"
  proof -
    have "exponent a + 1 = - int (bits m - 1)" using k unfolding e by simp
    then show ?thesis by (simp add: power_int_minus field_simps)
  qed
  have "rat_of_nat m + 1 \<le> 2 ^ bits m"
    using b(2) by (rule of_nat_less_pow2)
  with yhi have "y \<le> 2 ^ bits m" by linarith
  then have lo: "1 / 2 ^ bits m \<le> a"
    using assms unfolding y_def by (simp add: field_simps)
  have "(2::rat) ^ (bits m - 1) \<le> rat_of_nat m"
    using b(1) by (rule pow2_le_of_nat)
  with ylo have "2 ^ (bits m - 1) < y" by linarith
  then have hi: "a < 1 / 2 ^ (bits m - 1)"
    using assms unfolding y_def by (simp add: field_simps)
  from lo hi show ?thesis unfolding e1 e2 by simp
qed

lemma round_half_even_error: "\<bar>of_int (round_half_even m) - m\<bar> \<le> 1 / 2"
proof -
  have f: "rat_of_int \<lfloor>m\<rfloor> \<le> m" "m < rat_of_int \<lfloor>m\<rfloor> + 1"
    by linarith+
  show ?thesis
  proof (cases "m - rat_of_int \<lfloor>m\<rfloor> < 1 / 2")
    case True
    then have "round_half_even m = \<lfloor>m\<rfloor>" by (simp add: round_half_even_def)
    with f True show ?thesis by simp
  next
    case False
    then have "round_half_even m = \<lfloor>m\<rfloor> \<and> m - rat_of_int \<lfloor>m\<rfloor> = 1 / 2
        \<or> round_half_even m = \<lfloor>m\<rfloor> + 1"
      by (auto simp: round_half_even_def Let_def)
    with f False show ?thesis by auto
  qed
qed

lemma round_half_even_int: "round_half_even (of_int k) = k"
  by (simp add: round_half_even_def)

lemma powi_shift: "(2::rat) powi (e - int k) * 2 ^ k = 2 powi e"
proof -
  have "(2::rat) powi e = 2 powi ((e - int k) + int k)" by simp
  also have "\<dots> = 2 powi (e - int k) * 2 powi int k"
    by (rule power_int_add) simp
  finally show ?thesis by simp
qed

lemma binary64_error:
  "\<bar>binary64 x - x\<bar> \<le> \<bar>x\<bar> / 2 ^ 53"
proof (cases "x = 0")
  case True
  then show ?thesis by (simp add: binary64_def)
next
  case False
  define e where "e = exponent \<bar>x\<bar>"
  define ulp :: rat where "ulp = 2 powi (e - 52)"
  define m where "m = \<bar>x\<bar> / ulp"
  have u: "0 < ulp" unfolding ulp_def by simp
  from False have "0 < \<bar>x\<bar>" by simp
  from exponent_bounds [OF this] have lo: "2 powi e \<le> \<bar>x\<bar>" unfolding e_def by simp
  have b: "binary64 x = sgn x * of_int (round_half_even m) * ulp"
    using False by (simp add: binary64_def Let_def e_def ulp_def m_def)
  have x: "x = sgn x * m * ulp"
    using u by (simp add: m_def sgn_mult_abs)
  have "binary64 x - x = sgn x * (of_int (round_half_even m) - m) * ulp"
    by (subst b, subst (2) x) (simp add: algebra_simps)
  then have "\<bar>binary64 x - x\<bar> = \<bar>of_int (round_half_even m) - m\<bar> * ulp"
    using False u by (simp add: abs_mult abs_sgn_eq)
  also have "\<dots> \<le> 1 / 2 * ulp"
    using round_half_even_error [of m] u by (intro mult_right_mono) simp_all
  also have "1 / 2 * ulp = 2 powi e / 2 ^ 53"
    using powi_shift [of e 52] by (simp add: ulp_def)
  also have "\<dots> \<le> \<bar>x\<bar> / 2 ^ 53"
    using lo by (simp add: divide_right_mono)
  finally show ?thesis .
qed

text \<open>The result is a 53 bit integer times a power of two.\<close>

lemma binary64_representable:
  assumes "x \<noteq> 0"
  shows "\<exists>n. binary64 x = sgn x * of_int n * 2 powi (exponent \<bar>x\<bar> - 52)
           \<and> 2 ^ 52 \<le> n \<and> n \<le> 2 ^ 53"
proof -
  define e where "e = exponent \<bar>x\<bar>"
  define ulp :: rat where "ulp = 2 powi (e - 52)"
  define m where "m = \<bar>x\<bar> / ulp"
  have u: "0 < ulp" unfolding ulp_def by simp
  from assms have "0 < \<bar>x\<bar>" by simp
  from exponent_bounds [OF this] have lo: "2 powi e \<le> \<bar>x\<bar>" and hi: "\<bar>x\<bar> < 2 powi (e + 1)"
    unfolding e_def by simp_all
  have p52: "(2::rat) powi e = ulp * 2 ^ 52"
    using powi_shift [of e 52] by (simp add: ulp_def)
  have p53: "(2::rat) powi (e + 1) = ulp * 2 ^ 53"
    using powi_shift [of "e + 1" 53] by (simp add: ulp_def)
  have mlo: "2 ^ 52 \<le> m"
    using lo u unfolding p52 m_def by (simp add: field_simps)
  have mhi: "m < 2 ^ 53"
    using hi u unfolding p53 m_def by (simp add: field_simps)
  have r: "\<lfloor>m\<rfloor> \<le> round_half_even m" "round_half_even m \<le> \<lfloor>m\<rfloor> + 1"
    by (auto simp: round_half_even_def Let_def)
  have "(2::int) ^ 52 \<le> \<lfloor>m\<rfloor>"
    using mlo by (simp add: le_floor_iff)
  moreover have "\<lfloor>m\<rfloor> < (2::int) ^ 53"
    using mhi by (simp add: floor_less_iff)
  ultimately have "2 ^ 52 \<le> round_half_even m" "round_half_even m \<le> 2 ^ 53"
    using r by linarith+
  moreover have "binary64 x = sgn x * of_int (round_half_even m) * 2 powi (exponent \<bar>x\<bar> - 52)"
    using assms by (simp add: binary64_def Let_def e_def ulp_def m_def)
  ultimately show ?thesis by blast
qed

lemma exponent_less:
  assumes "0 < a" "a < 2 ^ k"
  shows "exponent a < int k"
proof (rule ccontr)
  assume "\<not> exponent a < int k"
  then have "int k \<le> exponent a" by simp
  then have "(2::rat) powi int k \<le> 2 powi exponent a"
    by (intro power_int_increasing) simp_all
  with exponent_bounds [OF assms(1)] assms(2) show False by simp
qed

lemma exponent_nonneg:
  assumes "1 \<le> a"
  shows "0 \<le> exponent a"
proof -
  from assms have "0 < nat \<lfloor>a\<rfloor>" by simp
  then have "0 < bits (nat \<lfloor>a\<rfloor>)" by (rule bits_pos)
  with assms show ?thesis by (simp add: exponent_def)
qed

lemma binary64_int:
  assumes "\<bar>n\<bar> < 2 ^ 53"
  shows "binary64 (of_int n) = of_int n"
proof (cases "n = 0")
  case True
  then show ?thesis by (simp add: binary64_def)
next
  case False
  define a :: rat where "a = \<bar>of_int n\<bar>"
  define e where "e = exponent a"
  from False have a1: "1 \<le> a" unfolding a_def by (simp flip: of_int_abs)
  have "a < 2 ^ 53"
    unfolding a_def using assms by (metis of_int_abs of_int_less_numeral_power_cancel_iff)
  with a1 have e53: "e < 53" unfolding e_def using exponent_less [of a 53] by simp
  have e0: "0 \<le> e" unfolding e_def using a1 by (rule exponent_nonneg)
  define j where "j = nat (52 - e)"
  have j: "e - 52 = - int j" unfolding j_def using e53 by simp
  have ulp: "(2::rat) powi (e - 52) = 1 / 2 ^ j"
    unfolding j by (simp add: power_int_minus field_simps)
  have "a / (1 / 2 ^ j) = rat_of_int (\<bar>n\<bar> * 2 ^ j)"
    unfolding a_def by simp
  then have r: "round_half_even (a / (1 / 2 ^ j)) = \<bar>n\<bar> * 2 ^ j"
    by (simp only: round_half_even_int)
  have "binary64 (of_int n) =
      sgn (rat_of_int n) * of_int (round_half_even (a / 2 powi (e - 52))) * 2 powi (e - 52)"
    using False by (simp add: binary64_def Let_def a_def e_def)
  also have "\<dots> =
      sgn (rat_of_int n) * of_int (round_half_even (a / (1 / 2 ^ j))) * (1 / 2 ^ j)"
    unfolding ulp ..
  also have "\<dots> = sgn (rat_of_int n) * rat_of_int \<bar>n\<bar>"
    unfolding r by simp
  also have "\<dots> = of_int n"
    using sgn_mult_abs [of "rat_of_int n"] by simp
  finally show ?thesis .
qed

lemma percent_error:
  "\<bar>binary64 (binary64 q * 100) - q * 100\<bar> \<le> \<bar>q * 100\<bar> / 2 ^ 51"
proof -
  define eps :: rat where "eps = 1 / 2 ^ 53"
  define q' where "q' = binary64 q"
  define x where "x = binary64 (q' * 100)"
  define B where "B = \<bar>q\<bar> * eps"
  have eps: "0 \<le> eps" "eps \<le> 1" unfolding eps_def by simp_all
  have B: "0 \<le> B" unfolding B_def using eps by simp
  have d1: "\<bar>q' - q\<bar> \<le> B"
    using binary64_error [of q] unfolding q'_def B_def eps_def by simp
  then have "\<bar>q'\<bar> \<le> \<bar>q\<bar> + B" by linarith
  then have "\<bar>q'\<bar> * eps \<le> (\<bar>q\<bar> + B) * eps"
    using eps(1) by (rule mult_right_mono)
  also have "\<dots> = B + B * eps" unfolding B_def by (simp add: algebra_simps)
  also have "\<dots> \<le> B + B * 1"
    using B eps(2) by (intro add_left_mono mult_left_mono) simp_all
  finally have q'eps: "\<bar>q'\<bar> * eps \<le> 2 * B" by simp
  have "\<bar>x - q' * 100\<bar> \<le> \<bar>q' * 100\<bar> * eps"
    using binary64_error [of "q' * 100"] unfolding x_def eps_def by simp
  also have "\<dots> = 100 * (\<bar>q'\<bar> * eps)" by (simp add: abs_mult)
  also have "\<dots> \<le> 100 * (2 * B)" using q'eps by (intro mult_left_mono) simp_all
  finally have d2: "\<bar>x - q' * 100\<bar> \<le> 200 * B" by simp
  have "x - q * 100 = (x - q' * 100) + 100 * (q' - q)" by simp
  then have "\<bar>x - q * 100\<bar> \<le> \<bar>x - q' * 100\<bar> + \<bar>100 * (q' - q)\<bar>"
    by (simp only: abs_triangle_ineq)
  also have "\<bar>100 * (q' - q)\<bar> = 100 * \<bar>q' - q\<bar>"
    by (simp only: abs_mult abs_numeral)
  finally have "\<bar>x - q * 100\<bar> \<le> \<bar>x - q' * 100\<bar> + 100 * \<bar>q' - q\<bar>" .
  then have "\<bar>x - q * 100\<bar> \<le> 200 * B + 100 * B" using d1 d2 by linarith
  also have "\<dots> \<le> 400 * B" using B by simp
  also have "\<dots> = \<bar>q * 100\<bar> / 2 ^ 51"
    unfolding B_def eps_def by (simp add: abs_mult)
  finally show ?thesis unfolding x_def q'_def .
qed

lemma binary64_percent_29_40:
  "binary64 (binary64 ((29 - 40) / 40) * 100) = - (27 + 1 / 2 + 1 / 2 ^ 48)"
  by code_simp

lemma exponent_unique:
  assumes "0 < a" "2 powi e \<le> a" "a < 2 powi (e + 1)"
  shows "exponent a = e"
proof (rule ccontr)
  assume ne: "exponent a \<noteq> e"
  note b = exponent_bounds [OF assms(1)]
  show False
  proof (cases "exponent a < e")
    case True
    then have "(2::rat) powi (exponent a + 1) \<le> 2 powi e"
      by (intro power_int_increasing) simp_all
    with b assms(2) show False by linarith
  next
    case False
    with ne have "e + 1 \<le> exponent a" by simp
    then have "(2::rat) powi (e + 1) \<le> 2 powi exponent a"
      by (intro power_int_increasing) simp_all
    with b assms(3) show False by linarith
  qed
qed

lemma exponent_scale:
  assumes "0 < a"
  shows "exponent (a * 2 powi k) = exponent a + k"
proof (rule exponent_unique)
  note b = exponent_bounds [OF assms]
  have p: "(0::rat) < 2 powi k" by simp
  show "0 < a * 2 powi k" using assms by simp
  have "(2::rat) powi (exponent a + k) = 2 powi exponent a * 2 powi k"
    by (rule power_int_add) simp
  also have "\<dots> \<le> a * 2 powi k"
    using b p by (intro mult_right_mono) simp_all
  finally show "2 powi (exponent a + k) \<le> a * 2 powi k" .
  have "a * 2 powi k < 2 powi (exponent a + 1) * 2 powi k"
    using b p by (intro mult_strict_right_mono) simp_all
  also have "\<dots> = 2 powi (exponent a + 1 + k)"
    by (rule power_int_add [symmetric]) simp
  finally show "a * 2 powi k < 2 powi (exponent a + k + 1)"
    by (simp add: add.commute add.left_commute)
qed

lemma binary64_scale: "binary64 (x * 2 powi k) = binary64 x * 2 powi k"
proof (cases "x = 0")
  case True
  then show ?thesis by (simp add: binary64_def)
next
  case False
  define e where "e = exponent \<bar>x\<bar>"
  define u where "u = (2::rat) powi (e - 52)"
  have a: "\<bar>x * 2 powi k\<bar> = \<bar>x\<bar> * 2 powi k"
    by (simp add: abs_mult)
  have e': "exponent (\<bar>x\<bar> * 2 powi k) = e + k"
    unfolding e_def using False by (intro exponent_scale) simp
  have u': "(2::rat) powi (e + k - 52) = u * 2 powi k"
  proof -
    have i: "e + k - 52 = (e - 52) + k" by simp
    show ?thesis unfolding i u_def by (rule power_int_add) simp
  qed
  have upos: "0 < u" by (simp add: u_def)
  have m: "\<bar>x\<bar> * 2 powi k / (u * 2 powi k) = \<bar>x\<bar> / u"
    by simp
  have s: "sgn (x * 2 powi k) = sgn x"
    by (simp add: sgn_mult)
  from False have nz: "x * 2 powi k \<noteq> 0" by simp
  have l: "binary64 (x * 2 powi k) =
      sgn x * of_int (round_half_even (\<bar>x\<bar> / u)) * (u * 2 powi k)"
    unfolding binary64_def Let_def a e' u' m s using nz by (simp only: if_False)
  have r: "binary64 x = sgn x * of_int (round_half_even (\<bar>x\<bar> / u)) * u"
    unfolding binary64_def Let_def u_def e_def using False by (simp only: if_False)
  show ?thesis unfolding l r by (simp only: mult.assoc)
qed

lemma binary64_dyadic:
  assumes "\<bar>n\<bar> < 2 ^ 53"
  shows "binary64 (of_int n * 2 powi k) = of_int n * 2 powi k"
  using binary64_int [OF assms] by (simp only: binary64_scale)

lemma no_tie:
  fixes n p :: int
  assumes p: "0 < p" and d: "\<not> 8 dvd p"
  shows "\<not> 2 * p dvd 200 * n + p"
proof
  assume "2 * p dvd 200 * n + p"
  then obtain t where t: "200 * n + p = 2 * p * t" by (auto simp: dvd_def)
  then have "8 * (25 * n) = p * (2 * t - 1)" by (simp add: algebra_simps)
  then have "8 dvd p * (2 * t - 1)" by (metis dvd_triv_left)
  moreover have "coprime (8::int) (2 * t - 1)"
  proof -
    have "coprime (2::int) (2 * t - 1)"
      by simp
    then have "coprime ((2::int) ^ 3) (2 * t - 1)"
      by (rule coprime_power_left_iff [THEN iffD2, OF disjI1])
    then show ?thesis by simp
  qed
  ultimately have "8 dvd p"
    by (simp add: coprime_dvd_mult_left_iff)
  with d show False ..
qed

lemma floor_gap:
  fixes N D :: int
  assumes D: "0 < D" and nd: "\<not> D dvd N"
  shows "rat_of_int \<lfloor>rat_of_int N / rat_of_int D\<rfloor> + 1 / rat_of_int D \<le> rat_of_int N / rat_of_int D"
    and "rat_of_int N / rat_of_int D + 1 / rat_of_int D \<le> rat_of_int \<lfloor>rat_of_int N / rat_of_int D\<rfloor> + 1"
proof -
  have f: "\<lfloor>rat_of_int N / rat_of_int D\<rfloor> = N div D"
    by (simp add: floor_divide_of_int_eq)
  have m: "1 \<le> N mod D" "N mod D \<le> D - 1"
    using D nd pos_mod_sign [of D N] pos_mod_bound [of D N]
    by (simp_all add: dvd_eq_mod_eq_0, linarith)
  have Dp: "0 < rat_of_int D" using D by simp
  have N: "rat_of_int N = rat_of_int D * rat_of_int (N div D) + rat_of_int (N mod D)"
    by (simp only: of_int_mult [symmetric] of_int_add [symmetric] mult_div_mod_eq)
  have e: "rat_of_int N / rat_of_int D = rat_of_int (N div D) + rat_of_int (N mod D) / rat_of_int D"
  proof -
    have "rat_of_int N / rat_of_int D =
        (rat_of_int D * rat_of_int (N div D) + rat_of_int (N mod D)) / rat_of_int D"
      by (simp only: N [symmetric])
    also have "\<dots> = rat_of_int (N div D) + rat_of_int (N mod D) / rat_of_int D"
      using Dp by (simp add: add_divide_distrib)
    finally show ?thesis .
  qed
  have "1 / rat_of_int D \<le> rat_of_int (N mod D) / rat_of_int D"
    using m(1) Dp by (intro divide_right_mono) simp_all
  then have "rat_of_int (N div D) + 1 / rat_of_int D \<le> rat_of_int N / rat_of_int D"
    unfolding e by simp
  then show "rat_of_int \<lfloor>rat_of_int N / rat_of_int D\<rfloor> + 1 / rat_of_int D \<le> rat_of_int N / rat_of_int D"
    by (simp only: f)
  have "rat_of_int (N mod D) \<le> rat_of_int (D - 1)"
    using m(2) by (simp only: of_int_le_iff)
  then have "rat_of_int (N mod D) / rat_of_int D \<le> rat_of_int (D - 1) / rat_of_int D"
    using Dp by (intro divide_right_mono) simp_all
  also have "\<dots> = 1 - 1 / rat_of_int D"
    using Dp by (simp add: field_simps)
  finally have "rat_of_int N / rat_of_int D + 1 / rat_of_int D \<le> rat_of_int (N div D) + 1"
    unfolding e by simp
  then show "rat_of_int N / rat_of_int D + 1 / rat_of_int D \<le> rat_of_int \<lfloor>rat_of_int N / rat_of_int D\<rfloor> + 1"
    by (simp only: f)
qed

lemma Math_round_stable:
  fixes x y g :: rat
  assumes lo: "rat_of_int (Math_round y) + g \<le> y + 1 / 2"
    and hi: "y + 1 / 2 + g \<le> rat_of_int (Math_round y) + 1"
    and near: "\<bar>x - y\<bar> < g"
  shows "Math_round x = Math_round y"
proof -
  have "rat_of_int (Math_round y) \<le> x + 1 / 2" "x + 1 / 2 < rat_of_int (Math_round y) + 1"
    using assms by linarith+
  then show ?thesis
    unfolding Math_round_def [of x] by (simp add: floor_eq_iff)
qed

lemma half_shift:
  fixes a b :: rat
  assumes "0 < b"
  shows "a / b * 100 + 1 / 2 = (200 * a + b) / (2 * b)"
  using assms by (simp add: field_simps)

lemma gap_bound:
  fixes A P K :: rat
  assumes "0 < P" "0 < K" "200 * A < K"
  shows "100 * A / P / K < 1 / (2 * P)"
proof -
  have "100 * A / P / K = (200 * A / K) * (1 / (2 * P))"
    using assms by simp
  also have "\<dots> < 1 * (1 / (2 * P))"
    using assms by (intro mult_strict_right_mono) (simp_all add: field_simps)
  finally show ?thesis by simp
qed

lemma count_diff_bound:
  fixes c p :: nat
  assumes "c < 2 ^ 32" "p < 2 ^ 32"
  shows "\<bar>int c - int p\<bar> < 2 ^ 32"
proof -
  have "int c < 2 ^ 32" "int p < 2 ^ 32"
    using assms by simp_all
  then show ?thesis by linarith
qed

lemma trend_exact_odd:
  fixes c p :: nat
  assumes p: "0 < p" and d: "\<not> 8 dvd p" and c32: "c < 2 ^ 32" and p32: "p < 2 ^ 32"
  shows "Math_round (percent_double c p) = Math_round (relative_change c p)"
proof -
  define n where "n = int c - int p"
  define q :: rat where "q = (of_nat c - of_nat p) / of_nat p"
  define y where "y = q * 100"
  define P where "P = rat_of_int (int p)"
  define g :: rat where "g = 1 / rat_of_int (2 * int p)"
  have pp: "0 < P" using p by (simp add: P_def)
  have g: "g = 1 / (2 * P)" by (simp add: g_def P_def)
  have q: "q = rat_of_int n / P"
    by (simp add: q_def n_def P_def)
  have z: "y + 1 / 2 = rat_of_int (200 * n + int p) / rat_of_int (2 * int p)"
  proof -
    have "y + 1 / 2 = (200 * rat_of_int n + P) / (2 * P)"
      unfolding y_def q by (rule half_shift [OF pp])
    also have "\<dots> = rat_of_int (200 * n + int p) / rat_of_int (2 * int p)"
      by (simp add: P_def)
    finally show ?thesis .
  qed
  have "\<not> (8::int) dvd int p"
    using d int_dvd_int_iff [of 8 p] by simp
  then have nd: "\<not> 2 * int p dvd 200 * n + int p"
    using p by (intro no_tie) simp_all
  have D: "0 < 2 * int p" using p by simp
  have r: "rat_of_int (Math_round y) = rat_of_int \<lfloor>rat_of_int (200 * n + int p) / rat_of_int (2 * int p)\<rfloor>"
    unfolding Math_round_def z ..
  have lo: "rat_of_int (Math_round y) + g \<le> y + 1 / 2"
    unfolding r z g_def by (rule floor_gap(1) [OF D nd])
  have hi: "y + 1 / 2 + g \<le> rat_of_int (Math_round y) + 1"
    unfolding r z g_def by (rule floor_gap(2) [OF D nd])
  have nb: "\<bar>n\<bar> < 2 ^ 32"
    unfolding n_def by (rule count_diff_bound [OF c32 p32])
  have ay: "\<bar>y\<bar> = 100 * rat_of_int \<bar>n\<bar> / P"
    unfolding y_def q using pp by (simp add: abs_mult)
  have "\<bar>y\<bar> / 2 ^ 51 < g"
  proof -
    have "rat_of_int \<bar>n\<bar> < 2 ^ 32"
      using nb by (simp only: of_int_less_numeral_power_cancel_iff)
    then have "200 * rat_of_int \<bar>n\<bar> < 2 ^ 51" by simp
    then show ?thesis
      unfolding ay g by (intro gap_bound [OF pp]) simp_all
  qed
  moreover have "\<bar>binary64 (binary64 q * 100) - y\<bar> \<le> \<bar>y\<bar> / 2 ^ 51"
    unfolding y_def by (rule percent_error)
  ultimately have near: "\<bar>binary64 (binary64 q * 100) - y\<bar> < g" by linarith
  show ?thesis
    unfolding percent_double_def relative_change_def q_def [symmetric] y_def [symmetric]
    by (rule Math_round_stable [OF lo hi near])
qed

lemma trend_exact_pow2:
  fixes c p :: nat
  assumes pj: "p = 2 ^ j" and c32: "c < 2 ^ 32" and p32: "p < 2 ^ 32"
  shows "percent_double c p = relative_change c p"
proof -
  define n where "n = int c - int p"
  have nb: "\<bar>n\<bar> < 2 ^ 32"
    unfolding n_def by (rule count_diff_bound [OF c32 p32])
  have P: "(of_nat p :: rat) = 2 ^ j" by (simp add: pj)
  have q: "(of_nat c - of_nat p) / of_nat p = rat_of_int n * 2 powi (- int j)"
    unfolding P by (simp add: n_def power_int_minus field_simps pj)
  have q100: "rat_of_int n * 2 powi (- int j) * 100 = rat_of_int (100 * n) * 2 powi (- int j)"
    by simp
  have b1: "\<bar>n\<bar> < 2 ^ 53" using nb by simp
  have b2: "\<bar>100 * n\<bar> < 2 ^ 53" using nb by (simp add: abs_mult)
  show ?thesis
    unfolding percent_double_def relative_change_def q binary64_dyadic [OF b1] q100 binary64_dyadic [OF b2] ..
qed

lemma small_previous:
  fixes p :: nat
  assumes "p \<le> 23"
  shows "\<not> 8 dvd p \<or> (\<exists>j. p = 2 ^ j) \<or> p = 0"
proof (cases "8 dvd p")
  case False
  then show ?thesis by simp
next
  case True
  then obtain k where k: "p = 8 * k" by (auto simp: dvd_def)
  with assms have "k = 0 \<or> k = 1 \<or> k = 2" by auto
  then show ?thesis
  proof (elim disjE)
    assume "k = 0" with k show ?thesis by simp
  next
    assume "k = 1" with k have "p = 2 ^ 3" by simp
    then show ?thesis by blast
  next
    assume "k = 2" with k have "p = 2 ^ 4" by simp
    then show ?thesis by blast
  qed
qed

lemma trend_calculateRealStats:
  "trend (calculateRealStats now p hist saved) =
     trend_text (trend_percent (current_count now (duration_of p) hist)
                               (previous_count now (duration_of p) hist))"
  by (simp add: calculateRealStats_def Let_def trend_text_def trend_percent_def
      percent_double_def current_count_def previous_count_def mult.commute)

lemma Math_round_bounds:
  "rat_of_int (Math_round x) \<le> x + 1 / 2 \<and> x + 1 / 2 < rat_of_int (Math_round x) + 1"
  unfolding Math_round_def by linarith

lemma percent_double_error:
  "\<bar>percent_double c p - relative_change c p\<bar> \<le> \<bar>relative_change c p\<bar> / 2 ^ 51"
  unfolding percent_double_def relative_change_def by (rule percent_error)

lemma percent_double_exact:
  assumes "0 < p" "\<not> 8 dvd p \<or> (\<exists>j. p = 2 ^ j)" "c < 2 ^ 32" "p < 2 ^ 32"
  shows "Math_round (percent_double c p) = \<lfloor>relative_change c p + 1 / 2\<rfloor>"
proof -
  have "Math_round (percent_double c p) = Math_round (relative_change c p)"
  proof (cases "8 dvd p")
    case False
    with assms show ?thesis by (intro trend_exact_odd)
  next
    case True
    with assms(2) obtain j where "p = 2 ^ j" by blast
    then have "percent_double c p = relative_change c p"
      using assms(3,4) by (rule trend_exact_pow2)
    then show ?thesis by simp
  qed
  then show ?thesis by (simp add: Math_round_def)
qed

lemma trend_percent_exact:
  assumes "0 < p" "\<not> 8 dvd p \<or> (\<exists>j. p = 2 ^ j)" "c < 2 ^ 32" "p < 2 ^ 32"
  shows "trend_percent c p = \<lfloor>relative_change c p + 1 / 2\<rfloor>"
  using percent_double_exact [OF assms] assms(1) by (simp add: trend_percent_def)

lemma trend_percent_small:
  assumes "0 < p" "p \<le> 20" "c < 2 ^ 32"
  shows "trend_percent c p = \<lfloor>relative_change c p + 1 / 2\<rfloor>"
proof -
  from assms(2) have "p \<le> 23" by simp
  from small_previous [OF this] assms(1) have "\<not> 8 dvd p \<or> (\<exists>j. p = 2 ^ j)" by blast
  moreover from assms(2) have "p < 2 ^ 32" by simp
  ultimately show ?thesis using assms by (intro trend_percent_exact)
qed

lemma trend_percent_values:
  "trend_percent 0 0 = 0"
  "trend_percent 3 0 = 100"
  "trend_percent 2 4 = - 50"
  "trend_percent 2 3 = - 33"
  "trend_percent 9 8 = 13"
  "trend_percent 7 8 = - 12"
proof -
  show "trend_percent 0 0 = 0" "trend_percent 3 0 = 100"
    by (simp_all add: trend_percent_def)
  have e: "trend_percent c p = \<lfloor>relative_change c p + 1 / 2\<rfloor>"
    if "0 < p" "p \<le> 20" "c \<le> 20" for c p
    using that by (intro trend_percent_small) simp_all
  show "trend_percent 2 4 = - 50"
    by (simp add: e relative_change_def floor_eq_iff)
  show "trend_percent 2 3 = - 33"
    by (simp add: e relative_change_def floor_eq_iff)
  show "trend_percent 9 8 = 13"
    by (simp add: e relative_change_def floor_eq_iff)
  show "trend_percent 7 8 = - 12"
    by (simp add: e relative_change_def floor_eq_iff)
qed

lemma trend_percent_29_40: "trend_percent 29 40 = - 28"
  by code_simp

lemma trend_percent_63_40: "trend_percent 63 40 = 57"
  by code_simp

lemma binary64_tenth: "binary64 (1 / 10) = 3602879701896397 / 2 ^ 55"
  by code_simp

lemma trend_text_values:
  "trend_text 0 = ''+0%''"
  "trend_text 100 = ''+100%''"
  "trend_text (- 50) = ''-50%''"
  "trend_text (- 33) = ''-33%''"
  "trend_text 13 = ''+13%''"
  "trend_text (- 12) = ''-12%''"
  "trend_text (- 28) = ''-28%''"
  "trend_text 57 = ''+57%''"
  by code_simp+

lemma history_of_counts_counts:
  "current_count (10 * one_day) (duration_of P24h) (history_of_counts c p) = c"
  "previous_count (10 * one_day) (duration_of P24h) (history_of_counts c p) = p"
  "length (history_of_counts c p) = c + p"
  by (simp_all add: current_count_def previous_count_def history_of_counts_def
      duration_of_def one_day_def)

lemma count_le_length:
  "current_count now w hist \<le> length hist" "previous_count now w hist \<le> length hist"
  by (simp_all add: current_count_def previous_count_def)

lemma jsonMatch_None_iff: "jsonMatch text = None \<longleftrightarrow> \<not> has_brace_span text"
proof -
  let ?P = "\<lambda>c. c \<noteq> CHR ''{''"
  have "CHR ''}'' \<in> set (dropWhile ?P text) \<longleftrightarrow> has_brace_span text"
  proof
    assume m: "CHR ''}'' \<in> set (dropWhile ?P text)"
    then obtain d where d: "dropWhile ?P text = CHR ''{'' # d"
      using hd_dropWhile [of "?P" "text"] by (cases "dropWhile ?P text") auto
    with m have "CHR ''}'' \<in> set d" by simp
    then obtain mid post where "d = mid @ CHR ''}'' # post"
      by (auto simp: in_set_conv_decomp)
    with d have "text = takeWhile ?P text @ CHR ''{'' # mid @ CHR ''}'' # post"
      using takeWhile_dropWhile_id [of "?P" "text"] by simp
    then show "has_brace_span text"
      unfolding has_brace_span_def by blast
  next
    assume "has_brace_span text"
    then obtain pre mid post where t: "text = pre @ CHR ''{'' # mid @ CHR ''}'' # post"
      unfolding has_brace_span_def by blast
    show "CHR ''}'' \<in> set (dropWhile ?P text)"
    proof (cases "\<forall>c\<in>set pre. ?P c")
      case True
      then have "dropWhile ?P text = CHR ''{'' # mid @ CHR ''}'' # post"
        unfolding t by simp
      then show ?thesis by simp
    next
      case False
      then obtain c where "c \<in> set pre" "\<not> ?P c" by blast
      then have "dropWhile ?P text = dropWhile ?P pre @ CHR ''{'' # mid @ CHR ''}'' # post"
        unfolding t by (rule dropWhile_append1)
      then show ?thesis by simp
    qed
  qed
  then show ?thesis
    by (simp add: jsonMatch_def Let_def)
qed

lemma no_brace_no_span: "CHR ''{'' \<notin> set text \<Longrightarrow> \<not> has_brace_span text"
  by (auto simp: has_brace_span_def)

lemma extract_sources_web_refs:
  "extract_sources chunks =
     map (\<lambda>w. \<lparr>title = (case web_title w of
                           None \<Rightarrow> ''Fonte Web''
                         | Some t \<Rightarrow> if t = [] then ''Fonte Web'' else t),
                uri = web_uri w\<rparr>) (web_refs chunks)"
proof (cases chunks)
  case None
  then show ?thesis by (simp add: extract_sources_def web_refs_def)
next
  case (Some cs)
  have "List.map_filter source_of_chunk cs =
     map (\<lambda>w. \<lparr>title = (case web_title w of
                           None \<Rightarrow> ''Fonte Web''
                         | Some t \<Rightarrow> if t = [] then ''Fonte Web'' else t),
                uri = web_uri w\<rparr>) (List.map_filter web cs)"
    by (induction cs) (auto simp: source_of_chunk_def split: option.splits)
  with Some show ?thesis by (simp add: extract_sources_def web_refs_def)
qed

lemma sources_compareProducts:
  "\<exists>res. compareProducts q now (Inr resp) = Inr res \<and>
         sources res = extract_sources (groundingChunks resp)"
  by (simp add: compareProducts_def Let_def)

lemma JSON_parse_sample: "JSON_parse sample_json = Some sample_record"
  by code_simp

lemma jsonMatch_embedded:
  assumes "CHR ''{'' \<notin> set pre" "CHR ''}'' \<notin> set post"
  shows "jsonMatch (pre @ CHR ''{'' # body @ CHR ''}'' # post) = Some (CHR ''{'' # body @ ''}'')"
proof -
  let ?P = "\<lambda>c. c \<noteq> CHR ''{''" and ?Q = "\<lambda>c. c \<noteq> CHR ''}''"
  have "dropWhile ?P (pre @ ys) = dropWhile ?P ys" for ys
    using assms(1) by (intro dropWhile_append2) auto
  then have d: "dropWhile ?P (pre @ CHR ''{'' # body @ CHR ''}'' # post) =
      CHR ''{'' # body @ CHR ''}'' # post"
    by simp
  have "rev (CHR ''{'' # body @ CHR ''}'' # post) = rev post @ CHR ''}'' # rev (CHR ''{'' # body)"
    by simp
  moreover have "dropWhile ?Q (rev post @ ys) = dropWhile ?Q ys" for ys
    using assms(2) by (intro dropWhile_append2) auto
  then have "dropWhile ?Q (rev post @ CHR ''}'' # rev (CHR ''{'' # body)) =
      CHR ''}'' # rev (CHR ''{'' # body)"
    by simp
  ultimately have "rev (dropWhile ?Q (rev (CHR ''{'' # body @ CHR ''}'' # post))) =
      CHR ''{'' # body @ ''}''"
    by simp
  with d show ?thesis
    by (simp add: jsonMatch_def Let_def)
qed

lemma not_ws_brace: "\<not> is_ws (CHR ''{'')"
  by (simp add: is_ws_def)

lemma parse_value_object:
  "parse_value n (CHR ''{'' # cs) = Some (v, rest) \<Longrightarrow> truthy v"
  by (cases n) (auto simp: not_ws_brace split: list.splits if_splits)

lemma JSON_parse_object:
  assumes "JSON_parse (CHR ''{'' # cs) = Some v"
  shows "truthy v"
proof -
  from assms obtain rest where
    "parse_value (2 * length (CHR ''{'' # cs) + 2) (CHR ''{'' # cs) = Some (v, rest)"
    unfolding JSON_parse_def by (auto split: option.splits if_splits)
  then show ?thesis by (rule parse_value_object)
qed

lemma JSON_parse_bad_member:
  assumes "\<not> is_ws c" "c \<noteq> CHR 0x22" "c \<noteq> CHR ''}''"
  shows "JSON_parse (CHR ''{'' # c # cs) = None"
proof -
  have "parse_value (Suc (Suc n)) (CHR ''{'' # c # cs) = None" for n
    using assms by (simp add: not_ws_brace)
  then show ?thesis
    by (simp add: JSON_parse_def)
qed

lemma split_first_last:
  assumes "hd j = CHR ''{''" "last j = CHR ''}''" "j \<noteq> []"
  shows "\<exists>body. j = CHR ''{'' # body @ ''}''"
proof -
  from assms obtain t where j: "j = CHR ''{'' # t" by (cases j) auto
  with assms(2) have "t \<noteq> []" by (cases t) auto
  then have "t = butlast t @ [last t]" by simp
  moreover from j \<open>t \<noteq> []\<close> assms(2) have "last t = CHR ''}''" by simp
  ultimately have "j = CHR ''{'' # butlast t @ ''}''" using j by simp
  then show ?thesis by blast
qed

lemma JSON_parse_nonempty: "JSON_parse j = Some r \<Longrightarrow> j \<noteq> []"
  by (auto simp: JSON_parse_def)

lemma getPersonaAnalysis_plain:
  "CHR ''{'' \<notin> set t \<Longrightarrow>
   getPersonaAnalysis context personaLabel (plain_response t) = Inr (fallback_verdict t)"
  using jsonMatch_None_iff [of t] no_brace_no_span [of t]
  by (simp add: getPersonaAnalysis_def plain_response_def fallback_verdict_def text_or_empty_def)

section \<open>The claims\<close>

text \<open>
  C1, as stated, fails: prose with a brace of its own widens the span. Here the record
  is valid JSON and the prose before it holds braces; the span from the first opening
  brace to the last closing brace is not JSON, and the result has a null record and
  the whole text as raw text.
\<close>

theorem extraction_loses_record:
  "JSON_parse sample_json = Some sample_record
   \<and> compareProducts ''PS5 vs Xbox'' 5
       (Inr \<lparr>response_text = Some (''Segue {em JSON}: '' @ sample_json), groundingChunks = None\<rparr>) =
     Inr \<lparr>data = None, sources = [],
          rawText = Some (''Segue {em JSON}: '' @ sample_json),
          query = ''PS5 vs Xbox'', timestamp = Some 5\<rparr>"
proof -
  have "jsonMatch (''Segue '' @ CHR ''{'' # (''em JSON}: '' @ CHR ''{'' # sample_members) @
        CHR ''}'' # []) =
      Some (CHR ''{'' # (''em JSON}: '' @ CHR ''{'' # sample_members) @ ''}'')"
    by (rule jsonMatch_embedded) simp_all
  then have m: "jsonMatch (''Segue {em JSON}: '' @ sample_json) =
      Some (CHR ''{'' # CHR ''e'' # (''m JSON}: '' @ sample_json))"
    by (simp add: sample_json_def)
  have "JSON_parse (CHR ''{'' # CHR ''e'' # (''m JSON}: '' @ sample_json)) = None"
    by (rule JSON_parse_bad_member) (simp_all add: is_ws_def)
  with m show ?thesis
    by (simp add: compareProducts_def Let_def text_or_empty_def extract_sources_def
        JSON_parse_sample falsy_def)
qed

text \<open>
  C1, amended. When the text before the embedded JSON object holds no opening brace
  and the text after it holds no closing brace, the span is exactly the embedded object
  text: the returned record is the value \<open>JSON_parse\<close> gives for that text, and no raw
  text is returned.
\<close>

theorem extraction_round_trip:
  assumes "CHR ''{'' \<notin> set pre" and "CHR ''}'' \<notin> set post"
    and "hd j = CHR ''{''" and "last j = CHR ''}''"
    and "JSON_parse j = Some r"
  shows "compareProducts q now
           (Inr \<lparr>response_text = Some (pre @ j @ post), groundingChunks = chunks\<rparr>) =
         Inr \<lparr>data = Some r, sources = extract_sources chunks, rawText = None,
              query = q, timestamp = Some now\<rparr>"
proof -
  from assms(5) have "j \<noteq> []" by (rule JSON_parse_nonempty)
  with assms(3,4) obtain body where j: "j = CHR ''{'' # body @ ''}''"
    using split_first_last by blast
  have m: "jsonMatch (pre @ j @ post) = Some j"
    unfolding j using jsonMatch_embedded [OF assms(1,2), of body] by simp
  have "truthy r"
    using assms(5) unfolding j by (rule JSON_parse_object)
  with m assms(5) show ?thesis
    by (simp add: compareProducts_def Let_def text_or_empty_def falsy_def)
qed

theorem extraction_round_trip_witness:
  "CHR ''{'' \<notin> set ''Aqui esta a comparacao: '' \<and> CHR ''}'' \<notin> set '' Espero ter ajudado!''
   \<and> hd sample_json = CHR ''{'' \<and> last sample_json = CHR ''}''
   \<and> JSON_parse sample_json = Some sample_record
   \<and> compareProducts ''PS5 vs Xbox'' 5
       (Inr \<lparr>response_text = Some (''Aqui esta a comparacao: '' @ sample_json @ '' Espero ter ajudado!''),
             groundingChunks = None\<rparr>) =
     Inr \<lparr>data = Some sample_record, sources = [], rawText = None,
          query = ''PS5 vs Xbox'', timestamp = Some 5\<rparr>"
proof -
  have a: "CHR ''{'' \<notin> set ''Aqui esta a comparacao: ''" by simp
  have b: "CHR ''}'' \<notin> set '' Espero ter ajudado!''" by simp
  have c: "hd sample_json = CHR ''{''" by (simp add: sample_json_def)
  have d: "last sample_json = CHR ''}''" by (simp add: sample_json_def)
  have e: "extract_sources None = []" by (simp add: extract_sources_def)
  from extraction_round_trip [OF a b c d JSON_parse_sample, of "''PS5 vs Xbox''" 5 None]
  show ?thesis
    using a b c d e JSON_parse_sample by simp
qed

text \<open>
  C2. With a current result whose record is not null, and a saved list that holds no
  two entries of the same (query, timestamp) (true of the empty list and kept by
  \<open>toggleSave\<close> and \<open>deleteSaved\<close>): the result counts as saved exactly when its
  (query, timestamp) pair is among the pairs of the saved entries, whatever their ids;
  two calls of \<open>toggleSave\<close> restore that membership and the set of saved pairs; the
  saved list still holds no pair twice after each call; and one call flips the
  membership (the record being a truthy value, as every object is).
\<close>

theorem toggleSave_involution:
  assumes "result st = Some r" "data r \<noteq> None"
    and "distinct (map result_key (savedComparisons st))"
  shows "(isCurrentResultSaved st \<longleftrightarrow> result_key r \<in> result_key ` set (savedComparisons st))
       \<and> (isCurrentResultSaved (toggleSave u2 t2 (toggleSave u1 t1 st)) \<longleftrightarrow>
            isCurrentResultSaved st)
       \<and> result_key ` set (savedComparisons (toggleSave u2 t2 (toggleSave u1 t1 st))) =
           result_key ` set (savedComparisons st)
       \<and> distinct (map result_key (savedComparisons (toggleSave u1 t1 st)))
       \<and> distinct (map result_key (savedComparisons (toggleSave u2 t2 (toggleSave u1 t1 st))))
       \<and> (\<not> falsy (data r) \<longrightarrow>
            (isCurrentResultSaved (toggleSave u1 t1 st) \<longleftrightarrow> \<not> isCurrentResultSaved st))"
proof (cases "falsy (data r)")
  case True
  then have "toggleSave u t st = st" for u t
    using assms(1) by (simp add: toggleSave_falsy)
  then show ?thesis
    using isSaved_key [OF assms(1)] assms(3) True by simp
next
  case False
  let ?st1 = "toggleSave u1 t1 st"
  have r1: "result ?st1 = Some r"
    using assms(1) by (simp add: toggleSave_result)
  have d1: "distinct (map result_key (savedComparisons ?st1))"
    using assms(1) False assms(3) by (rule toggleSave_distinct)
  have d2: "distinct (map result_key (savedComparisons (toggleSave u2 t2 ?st1)))"
    using r1 False d1 by (rule toggleSave_distinct)
  have f1: "isCurrentResultSaved ?st1 \<longleftrightarrow> \<not> isCurrentResultSaved st"
    using assms(1) False assms(3) by (rule toggleSave_flips)
  have f2: "isCurrentResultSaved (toggleSave u2 t2 ?st1) \<longleftrightarrow> \<not> isCurrentResultSaved ?st1"
    using r1 False d1 by (rule toggleSave_flips)
  have k1: "set (map result_key (savedComparisons ?st1)) =
      (if result_key r \<in> result_key ` set (savedComparisons st)
       then set (map result_key (savedComparisons st)) - {result_key r}
       else insert (result_key r) (set (map result_key (savedComparisons st))))"
    unfolding toggleSave_keys [OF assms(1) False assms(3)] by auto
  have k2: "set (map result_key (savedComparisons (toggleSave u2 t2 ?st1))) =
      (if result_key r \<in> result_key ` set (savedComparisons ?st1)
       then set (map result_key (savedComparisons ?st1)) - {result_key r}
       else insert (result_key r) (set (map result_key (savedComparisons ?st1))))"
    unfolding toggleSave_keys [OF r1 False d1] by auto
  have keys: "result_key ` set (savedComparisons (toggleSave u2 t2 ?st1)) =
      result_key ` set (savedComparisons st)"
    using k1 k2 by (auto split: if_splits)
  show ?thesis
    using isSaved_key [OF assms(1)] f1 f2 keys d1 d2 by simp
qed

theorem toggleSave_involution_witness:
  "result example_state = Some example_result \<and> data example_result \<noteq> None
   \<and> distinct (map result_key (savedComparisons example_state))
   \<and> \<not> falsy (data example_result)
   \<and> \<not> isCurrentResultSaved example_state
   \<and> isCurrentResultSaved (toggleSave ''id1'' 10 example_state)
   \<and> \<not> isCurrentResultSaved (toggleSave ''id2'' 11 (toggleSave ''id1'' 10 example_state))
   \<and> savedComparisons (toggleSave ''id2'' 11 (toggleSave ''id1'' 10 example_state)) = []"
proof -
  have a: "result example_state = Some example_result"
    by (simp add: example_state_def)
  have b: "data example_result \<noteq> None"
    by (simp add: example_result_def)
  have c: "distinct (map result_key (savedComparisons example_state))"
    by (simp add: example_state_def)
  have d: "\<not> isCurrentResultSaved example_state"
    by (simp add: isCurrentResultSaved_def example_state_def)
  have e: "savedComparisons (toggleSave ''id2'' 11 (toggleSave ''id1'' 10 example_state)) = []"
    by (simp add: toggleSave_def example_state_def example_result_def Let_def same_result_def
        filter_indexed_def AnalysisResult.extend_def SavedComparison.fields_def falsy_def)
  have f: "\<not> falsy (data example_result)"
    by (simp add: example_result_def falsy_def)
  from toggleSave_involution [OF a b c, of "''id2''" 11 "''id1''" 10] a b c d e f
  show ?thesis by simp
qed

text \<open>
  C3. A successful search for a non-blank query leaves as history the new entry (the
  query with the current timestamp) followed by the previous entries of every other
  query, cut to 20. After two successful searches for the same query the entry at
  position 0 is that query with the later timestamp, and it is the only entry of that
  query.
\<close>

theorem handleSearch_records_history:
  assumes "trim (finalQuery sq st) \<noteq> []"
  shows "history (handleSearch sq now (Inr res) st) =
           take 20 (\<lparr>h_query = finalQuery sq st, h_timestamp = now\<rparr> #
                    filter (\<lambda>item. h_query item \<noteq> finalQuery sq st) (history st))
       \<and> history (handleSearch sq t2 (Inr res2) (handleSearch sq now (Inr res) st)) ! 0 =
           \<lparr>h_query = finalQuery sq st, h_timestamp = t2\<rparr>
       \<and> filter (\<lambda>item. h_query item = finalQuery sq st)
            (history (handleSearch sq t2 (Inr res2) (handleSearch sq now (Inr res) st))) =
           [\<lparr>h_query = finalQuery sq st, h_timestamp = t2\<rparr>]"
proof -
  let ?st1 = "handleSearch sq now (Inr res) st"
  have fq: "finalQuery sq ?st1 = finalQuery sq st"
    using assms by (rule finalQuery_handleSearch)
  have h2: "history (handleSearch sq t2 (Inr res2) ?st1) =
      recordHistory (finalQuery sq st) t2 (history ?st1)"
    using history_handleSearch_ok [of sq ?st1 t2 res2] assms fq by simp
  have "history ?st1 = recordHistory (finalQuery sq st) now (history st)"
    using assms by (rule history_handleSearch_ok)
  then have a: "history ?st1 = take 20 (\<lparr>h_query = finalQuery sq st, h_timestamp = now\<rparr> #
                    filter (\<lambda>item. h_query item \<noteq> finalQuery sq st) (history st))"
    by (simp add: recordHistory_def)
  show ?thesis
    unfolding h2 using a recordHistory_head recordHistory_unique by blast
qed

theorem handleSearch_records_history_witness:
  "trim (finalQuery (Some ''A vs B'') example_state) \<noteq> []
   \<and> history (handleSearch (Some ''A vs B'') 20 (Inr example_result) example_state) =
       [\<lparr>h_query = ''A vs B'', h_timestamp = 20\<rparr>, \<lparr>h_query = ''C vs D'', h_timestamp = 7\<rparr>]
   \<and> history (handleSearch (Some ''A vs B'') 30 (Inr example_result)
        (handleSearch (Some ''A vs B'') 20 (Inr example_result) example_state)) ! 0 =
       \<lparr>h_query = ''A vs B'', h_timestamp = 30\<rparr>"
proof -
  have fq: "finalQuery (Some ''A vs B'') example_state = ''A vs B''"
    by (simp add: finalQuery_def)
  have h: "trim (finalQuery (Some ''A vs B'') example_state) \<noteq> []"
    unfolding fq by (rule trim_example)
  have hist: "history example_state =
      [\<lparr>h_query = ''C vs D'', h_timestamp = 7\<rparr>, \<lparr>h_query = ''A vs B'', h_timestamp = 5\<rparr>]"
    by (simp add: example_state_def)
  from handleSearch_records_history [OF h, of 20 example_result 30 example_result] h
  show ?thesis
    unfolding fq hist by simp
qed

text \<open>
  C4. From a history of at most 20 entries, a search (whatever its query and outcome),
  clearing the history and deleting a query each leave at most 20 entries. When the
  history holds exactly 20 entries and a non-blank query that is not among them is
  searched with success, the new history is the new entry followed by the old history
  without its last entry. That entry is the oldest: in a history ordered newest first
  no entry has a smaller timestamp than the last one, and a successful search keeps
  the history ordered newest first when the clock is not behind its entries.
\<close>

theorem history_at_most_20:
  "(length (history st) \<le> 20 \<longrightarrow>
      length (history (handleSearch sq now outcome st)) \<le> 20
    \<and> length (history (clearHistory st)) \<le> 20
    \<and> length (history (deleteHistoryItem q st)) \<le> 20)
 \<and> (length (history st) = 20 \<and> trim (finalQuery sq st) \<noteq> [] \<and>
      finalQuery sq st \<notin> h_query ` set (history st) \<longrightarrow>
      history (handleSearch sq now (Inr res) st) =
        \<lparr>h_query = finalQuery sq st, h_timestamp = now\<rparr> # butlast (history st))
 \<and> (sorted_wrt (\<ge>) (map h_timestamp (history st)) \<longrightarrow>
      (\<forall>e\<in>set (history st). h_timestamp (last (history st)) \<le> h_timestamp e)
    \<and> (trim (finalQuery sq st) \<noteq> [] \<and> (\<forall>e\<in>set (history st). h_timestamp e \<le> now) \<longrightarrow>
         sorted_wrt (\<ge>) (map h_timestamp (history (handleSearch sq now (Inr res) st)))))"
proof -
  have "length (history (deleteHistoryItem q st)) \<le> length (history st)"
    by (simp add: deleteHistoryItem_def)
  moreover have "length (history (clearHistory st)) = 0"
    by (simp add: clearHistory_def)
  ultimately have a: "length (history st) \<le> 20 \<longrightarrow>
      length (history (handleSearch sq now outcome st)) \<le> 20
    \<and> length (history (clearHistory st)) \<le> 20
    \<and> length (history (deleteHistoryItem q st)) \<le> 20"
    using history_handleSearch_le [of st sq now outcome] by simp
  have b: "length (history st) = 20 \<and> trim (finalQuery sq st) \<noteq> [] \<and>
      finalQuery sq st \<notin> h_query ` set (history st) \<longrightarrow>
      history (handleSearch sq now (Inr res) st) =
        \<lparr>h_query = finalQuery sq st, h_timestamp = now\<rparr> # butlast (history st)"
    using history_handleSearch_ok [of sq st now res]
      recordHistory_full [of "history st" "finalQuery sq st" now]
    by simp
  have c: "sorted_wrt (\<ge>) (map h_timestamp (history st)) \<longrightarrow>
      (\<forall>e\<in>set (history st). h_timestamp (last (history st)) \<le> h_timestamp e)
    \<and> (trim (finalQuery sq st) \<noteq> [] \<and> (\<forall>e\<in>set (history st). h_timestamp e \<le> now) \<longrightarrow>
         sorted_wrt (\<ge>) (map h_timestamp (history (handleSearch sq now (Inr res) st))))"
    using last_is_oldest [of "history st"] handleSearch_sorted [of sq st now res]
    by blast
  from a b c show ?thesis by blast
qed

theorem history_at_most_20_witness:
  "length (history full_state) \<le> 20
   \<and> length (history full_state) = 20
   \<and> trim (finalQuery (Some ''A vs B'') full_state) \<noteq> []
   \<and> finalQuery (Some ''A vs B'') full_state \<notin> h_query ` set (history full_state)
   \<and> sorted_wrt (\<ge>) (map h_timestamp (history full_state))
   \<and> list_all (\<lambda>e. h_timestamp e \<le> 200) (history full_state)
   \<and> history (handleSearch (Some ''A vs B'') 200 (Inr example_result) full_state) =
       \<lparr>h_query = ''A vs B'', h_timestamp = 200\<rparr> # butlast full_history
   \<and> length (history (handleSearch (Some ''A vs B'') 200 (Inr example_result) full_state)) = 20
   \<and> last full_history = \<lparr>h_query = replicate 20 (CHR ''x''), h_timestamp = 80\<rparr>
   \<and> list_all (\<lambda>e. 80 \<le> h_timestamp e) full_history
   \<and> sorted_wrt (\<ge>) (map h_timestamp
         (history (handleSearch (Some ''A vs B'') 200 (Inr example_result) full_state)))
   \<and> length (history (clearHistory full_state)) \<le> 20
   \<and> length (history (deleteHistoryItem ''x'' full_state)) \<le> 20"
proof -
  have fq: "finalQuery (Some ''A vs B'') full_state = ''A vs B''"
    by (simp add: finalQuery_def)
  have hist: "history full_state = full_history"
    by (simp add: full_state_def)
  have len: "length full_history = 20"
    by (simp add: full_history_def)
  have ne: "replicate n (CHR ''x'') \<noteq> ''A vs B''" for n
    by (cases n) simp_all
  have notin: "''A vs B'' \<notin> h_query ` set full_history"
  proof
    assume "''A vs B'' \<in> h_query ` set full_history"
    then obtain e where e: "e \<in> set full_history" and q: "''A vs B'' = h_query e"
      by (rule imageE)
    from e obtain n where "h_query e = replicate n (CHR ''x'')"
      unfolding full_history_def by auto
    with q ne [of n] show False by simp
  qed
  have lst: "last full_history = \<lparr>h_query = replicate 20 (CHR ''x''), h_timestamp = 80\<rparr>"
    by (simp add: full_history_def last_map)
  have srt: "sorted_wrt (\<ge>) (map h_timestamp (history full_state))"
    unfolding hist by (rule full_history_sorted)
  have upper: "\<forall>e\<in>set (history full_state). h_timestamp e \<le> 200"
    unfolding hist full_history_def by auto
  have a: "length (history full_state) \<le> 20"
    using hist len by simp
  have b: "length (history full_state) = 20 \<and> trim (finalQuery (Some ''A vs B'') full_state) \<noteq> []
      \<and> finalQuery (Some ''A vs B'') full_state \<notin> h_query ` set (history full_state)"
    using hist len notin trim_example fq by simp
  note inst = history_at_most_20 [of full_state "Some ''A vs B''" 200 "Inr example_result" "''x''"
      example_result]
  from inst a have c1: "length (history (handleSearch (Some ''A vs B'') 200 (Inr example_result) full_state)) \<le> 20
      \<and> length (history (clearHistory full_state)) \<le> 20
      \<and> length (history (deleteHistoryItem ''x'' full_state)) \<le> 20"
    by blast
  from inst b have c2: "history (handleSearch (Some ''A vs B'') 200 (Inr example_result) full_state) =
          \<lparr>h_query = finalQuery (Some ''A vs B'') full_state, h_timestamp = 200\<rparr> #
          butlast (history full_state)"
    by blast
  from inst srt have c3: "\<forall>e\<in>set (history full_state).
      h_timestamp (last (history full_state)) \<le> h_timestamp e"
    by blast
  from inst srt b upper have c4: "sorted_wrt (\<ge>) (map h_timestamp
         (history (handleSearch (Some ''A vs B'') 200 (Inr example_result) full_state)))"
    by blast
  from c2 have c5: "length (history (handleSearch (Some ''A vs B'') 200 (Inr example_result) full_state)) = 20"
    using hist len by simp
  from c3 have c6: "list_all (\<lambda>e. 80 \<le> h_timestamp e) full_history"
    unfolding hist lst by (simp add: list_all_iff)
  from upper have c7: "list_all (\<lambda>e. h_timestamp e \<le> 200) (history full_state)"
    by (simp add: list_all_iff)
  from a b srt c1 c2 [unfolded fq hist] c4 c5 c6 c7 lst show ?thesis
    by blast
qed

text \<open>
  C5. For a history of fewer than \<open>2 ^ 32\<close> entries (every array), with \<open>c\<close>
  the count of the current window and \<open>pr\<close> the count of the previous one, the trend
  text of the statistics is the trend value with a "+" before it when it is not
  negative and "%" after it. The trend value is 100 when \<open>pr\<close> is 0 and \<open>c\<close> is
  positive, and 0 when both are 0. When \<open>pr\<close> is positive it is the integer nearest
  to the double \<open>(c - pr) / pr * 100\<close>, a tie going upwards; that double is within
  a relative distance of \<open>2 ^ - 51\<close> of the exact quotient, and \<open>c - pr\<close> itself is
  exact. When 8 does not divide \<open>pr\<close>, or \<open>pr\<close> is a power of two, and so for every
  history of at most 20 entries, the trend value is the exact relative change rounded
  to the nearest integer, a tie going upwards. With previous count 0 and current count
  3 the text is "+100%"; with 4 and 2 it is "-50%"; with 3 and 2 it is "-33%"; with 8
  and 9 it is "+13%"; with 8 and 7 it is "-12%". With previous count 40 the double is
  not the exact value: current count 29 (exactly -27.5) gives "-28%" and current count
  63 (exactly 57.5) gives "+57%".
\<close>

theorem windowed_trend:
  assumes len: "length hist < 2 ^ 32"
    and c: "c = current_count now (duration_of sp) hist"
    and pr: "pr = previous_count now (duration_of sp) hist"
  shows
    "trend (calculateRealStats now sp hist saved) = trend_text (trend_percent c pr)
     \<and> trend_text (trend_percent c pr) =
         (if 0 \<le> trend_percent c pr then ''+'' else []) @ string_of_int (trend_percent c pr) @ ''%''
     \<and> (pr = 0 \<and> 0 < c \<longrightarrow> trend_percent c pr = 100)
     \<and> (pr = 0 \<and> c = 0 \<longrightarrow> trend_percent c pr = 0)
     \<and> (0 < pr \<longrightarrow>
          rat_of_int (trend_percent c pr) \<le> percent_double c pr + 1 / 2
        \<and> percent_double c pr + 1 / 2 < rat_of_int (trend_percent c pr) + 1
        \<and> \<bar>percent_double c pr - relative_change c pr\<bar> \<le> \<bar>relative_change c pr\<bar> / 2 ^ 51
        \<and> binary64 (of_int (int c - int pr)) = of_int (int c - int pr))
     \<and> (0 < pr \<and> (\<not> 8 dvd pr \<or> (\<exists>j. pr = 2 ^ j)) \<longrightarrow>
          trend_percent c pr = \<lfloor>relative_change c pr + 1 / 2\<rfloor>)
     \<and> (0 < pr \<and> length hist \<le> 20 \<longrightarrow>
          trend_percent c pr = \<lfloor>relative_change c pr + 1 / 2\<rfloor>)
     \<and> (pr = 0 \<and> c = 3 \<longrightarrow> trend (calculateRealStats now sp hist saved) = ''+100%'')
     \<and> (pr = 4 \<and> c = 2 \<longrightarrow> trend (calculateRealStats now sp hist saved) = ''-50%'')
     \<and> (pr = 3 \<and> c = 2 \<longrightarrow> trend (calculateRealStats now sp hist saved) = ''-33%'')
     \<and> (pr = 8 \<and> c = 9 \<longrightarrow> trend (calculateRealStats now sp hist saved) = ''+13%'')
     \<and> (pr = 8 \<and> c = 7 \<longrightarrow> trend (calculateRealStats now sp hist saved) = ''-12%'')
     \<and> (pr = 40 \<and> c = 29 \<longrightarrow> trend (calculateRealStats now sp hist saved) = ''-28%'')
     \<and> (pr = 40 \<and> c = 63 \<longrightarrow> trend (calculateRealStats now sp hist saved) = ''+57%'')"
proof -
  have t: "trend (calculateRealStats now sp hist saved) = trend_text (trend_percent c pr)"
    unfolding c pr by (rule trend_calculateRealStats)
  have c32: "c < 2 ^ 32" and p32: "pr < 2 ^ 32"
    using len count_le_length [of now "duration_of sp" hist] unfolding c pr by linarith+
  have s: "trend_text (trend_percent c pr) =
      (if 0 \<le> trend_percent c pr then ''+'' else []) @ string_of_int (trend_percent c pr) @ ''%''"
    by (simp add: trend_text_def)
  have z1: "pr = 0 \<and> 0 < c \<longrightarrow> trend_percent c pr = 100"
    by (simp add: trend_percent_def)
  have z2: "pr = 0 \<and> c = 0 \<longrightarrow> trend_percent c pr = 0"
    by (simp add: trend_percent_def)
  have r: "0 < pr \<longrightarrow>
          rat_of_int (trend_percent c pr) \<le> percent_double c pr + 1 / 2
        \<and> percent_double c pr + 1 / 2 < rat_of_int (trend_percent c pr) + 1
        \<and> \<bar>percent_double c pr - relative_change c pr\<bar> \<le> \<bar>relative_change c pr\<bar> / 2 ^ 51
        \<and> binary64 (of_int (int c - int pr)) = of_int (int c - int pr)"
  proof
    assume p: "0 < pr"
    then have v: "trend_percent c pr = Math_round (percent_double c pr)"
      by (simp add: trend_percent_def)
    have "\<bar>int c - int pr\<bar> < 2 ^ 32" by (rule count_diff_bound [OF c32 p32])
    then have "\<bar>int c - int pr\<bar> < 2 ^ 53" by simp
    then have "binary64 (of_int (int c - int pr)) = of_int (int c - int pr)"
      by (rule binary64_int)
    then show "rat_of_int (trend_percent c pr) \<le> percent_double c pr + 1 / 2
        \<and> percent_double c pr + 1 / 2 < rat_of_int (trend_percent c pr) + 1
        \<and> \<bar>percent_double c pr - relative_change c pr\<bar> \<le> \<bar>relative_change c pr\<bar> / 2 ^ 51
        \<and> binary64 (of_int (int c - int pr)) = of_int (int c - int pr)"
      unfolding v using Math_round_bounds [of "percent_double c pr"] percent_double_error [of c pr]
      by blast
  qed
  have x1: "0 < pr \<and> (\<not> 8 dvd pr \<or> (\<exists>j. pr = 2 ^ j)) \<longrightarrow>
          trend_percent c pr = \<lfloor>relative_change c pr + 1 / 2\<rfloor>"
    using trend_percent_exact [of pr c] c32 p32 by blast
  have x2: "0 < pr \<and> length hist \<le> 20 \<longrightarrow>
          trend_percent c pr = \<lfloor>relative_change c pr + 1 / 2\<rfloor>"
  proof
    assume a: "0 < pr \<and> length hist \<le> 20"
    then have "pr \<le> 20"
      using count_le_length(2) [of now "duration_of sp" hist] unfolding pr by linarith
    with a c32 show "trend_percent c pr = \<lfloor>relative_change c pr + 1 / 2\<rfloor>"
      by (intro trend_percent_small) simp_all
  qed
  have i1: "pr = 0 \<and> c = 3 \<longrightarrow> trend (calculateRealStats now sp hist saved) = ''+100%''"
    unfolding t by (simp add: trend_percent_values trend_text_values)
  have i2: "pr = 4 \<and> c = 2 \<longrightarrow> trend (calculateRealStats now sp hist saved) = ''-50%''"
    unfolding t by (simp add: trend_percent_values trend_text_values)
  have i3: "pr = 3 \<and> c = 2 \<longrightarrow> trend (calculateRealStats now sp hist saved) = ''-33%''"
    unfolding t by (simp add: trend_percent_values trend_text_values)
  have i4: "pr = 8 \<and> c = 9 \<longrightarrow> trend (calculateRealStats now sp hist saved) = ''+13%''"
    unfolding t by (simp add: trend_percent_values trend_text_values)
  have i5: "pr = 8 \<and> c = 7 \<longrightarrow> trend (calculateRealStats now sp hist saved) = ''-12%''"
    unfolding t by (simp add: trend_percent_values trend_text_values)
  have i6: "pr = 40 \<and> c = 29 \<longrightarrow> trend (calculateRealStats now sp hist saved) = ''-28%''"
    unfolding t by (simp add: trend_percent_29_40 trend_text_values)
  have i7: "pr = 40 \<and> c = 63 \<longrightarrow> trend (calculateRealStats now sp hist saved) = ''+57%''"
    unfolding t by (simp add: trend_percent_63_40 trend_text_values)
  from t s z1 z2 r x1 x2 i1 i2 i3 i4 i5 i6 i7 show ?thesis
    by (intro conjI)
qed

lemma rising_counts:
  "previous_count (10 * one_day) (duration_of P24h) rising_history = 0
   \<and> current_count (10 * one_day) (duration_of P24h) rising_history = 3"
  by (simp add: previous_count_def current_count_def rising_history_def duration_of_def one_day_def)

lemma falling_counts:
  "previous_count (10 * one_day) (duration_of P24h) falling_history = 4
   \<and> current_count (10 * one_day) (duration_of P24h) falling_history = 2"
  by (simp add: previous_count_def current_count_def falling_history_def duration_of_def one_day_def)

lemma sample_lengths:
  "length ([] :: HistoryItem list) < 2 ^ 32"
  "length rising_history < 2 ^ 32"
  "length falling_history < 2 ^ 32"
  "length falling_history \<le> 20"
  "length (history_of_counts 2 3) < 2 ^ 32"
  "length (history_of_counts 2 3) \<le> 20"
  "length (history_of_counts 9 8) < 2 ^ 32"
  "length (history_of_counts 7 8) < 2 ^ 32"
  "length (history_of_counts 29 40) < 2 ^ 32"
  "length (history_of_counts 63 40) < 2 ^ 32"
  by (simp_all add: rising_history_def falling_history_def history_of_counts_counts)

theorem windowed_trend_witness:
  "trend (calculateRealStats (10 * one_day) P24h [] []) = ''+0%''
   \<and> previous_count (10 * one_day) (duration_of P24h) rising_history = 0
   \<and> current_count (10 * one_day) (duration_of P24h) rising_history = 3
   \<and> trend (calculateRealStats (10 * one_day) P24h rising_history []) = ''+100%''
   \<and> previous_count (10 * one_day) (duration_of P24h) falling_history = 4
   \<and> current_count (10 * one_day) (duration_of P24h) falling_history = 2
   \<and> length falling_history \<le> 20
   \<and> trend (calculateRealStats (10 * one_day) P24h falling_history []) = ''-50%''
   \<and> trend_percent 2 4 = \<lfloor>relative_change 2 4 + 1 / 2\<rfloor>
   \<and> rat_of_int (trend_percent 2 4) \<le> percent_double 2 4 + 1 / 2
   \<and> percent_double 2 4 + 1 / 2 < rat_of_int (trend_percent 2 4) + 1
   \<and> previous_count (10 * one_day) (duration_of P24h) (history_of_counts 2 3) = 3
   \<and> current_count (10 * one_day) (duration_of P24h) (history_of_counts 2 3) = 2
   \<and> \<not> (8::nat) dvd 3
   \<and> trend_percent 2 3 = \<lfloor>relative_change 2 3 + 1 / 2\<rfloor>
   \<and> trend (calculateRealStats (10 * one_day) P24h (history_of_counts 2 3) []) = ''-33%''
   \<and> trend (calculateRealStats (10 * one_day) P24h (history_of_counts 9 8) []) = ''+13%''
   \<and> trend (calculateRealStats (10 * one_day) P24h (history_of_counts 7 8) []) = ''-12%''
   \<and> previous_count (10 * one_day) (duration_of P24h) (history_of_counts 29 40) = 40
   \<and> current_count (10 * one_day) (duration_of P24h) (history_of_counts 29 40) = 29
   \<and> trend (calculateRealStats (10 * one_day) P24h (history_of_counts 29 40) []) = ''-28%''
   \<and> trend (calculateRealStats (10 * one_day) P24h (history_of_counts 63 40) []) = ''+57%''"
proof -
  let ?now = "10 * one_day"
  note hc = history_of_counts_counts [symmetric]
  have e0: "0 = current_count ?now (duration_of P24h) []"
    "0 = previous_count ?now (duration_of P24h) []"
    by (simp_all add: current_count_def previous_count_def)
  have r: "3 = current_count ?now (duration_of P24h) rising_history"
    "0 = previous_count ?now (duration_of P24h) rising_history"
    using rising_counts by simp_all
  have f: "2 = current_count ?now (duration_of P24h) falling_history"
    "4 = previous_count ?now (duration_of P24h) falling_history"
    using falling_counts by simp_all
  note T0 = windowed_trend [where saved = "[]", OF sample_lengths(1) e0]
  note T1 = windowed_trend [where saved = "[]", OF sample_lengths(2) r]
  note T2 = windowed_trend [where saved = "[]", OF sample_lengths(3) f]
  note T3 = windowed_trend [where saved = "[]", OF sample_lengths(5) hc(1) hc(2)]
  note T4 = windowed_trend [where saved = "[]", OF sample_lengths(7) hc(1) hc(2)]
  note T5 = windowed_trend [where saved = "[]", OF sample_lengths(8) hc(1) hc(2)]
  note T6 = windowed_trend [where saved = "[]", OF sample_lengths(9) hc(1) hc(2)]
  note T7 = windowed_trend [where saved = "[]", OF sample_lengths(10) hc(1) hc(2)]
  note k = conjunct2
  have a0: "trend (calculateRealStats ?now P24h [] []) = ''+0%''"
  proof -
    have "trend_percent 0 0 = 0"
      using T0 [THEN k, THEN k, THEN k, THEN conjunct1] by simp
    with T0 [THEN conjunct1] show ?thesis by (simp only: trend_text_values)
  qed
  have a1: "trend (calculateRealStats ?now P24h rising_history []) = ''+100%''"
    using T1 [THEN k, THEN k, THEN k, THEN k, THEN k, THEN k, THEN k, THEN conjunct1] by simp
  have a2: "trend (calculateRealStats ?now P24h falling_history []) = ''-50%''"
    using T2 [THEN k, THEN k, THEN k, THEN k, THEN k, THEN k, THEN k, THEN k, THEN conjunct1] by simp
  have b2: "trend_percent 2 4 = \<lfloor>relative_change 2 4 + 1 / 2\<rfloor>"
    using T2 [THEN k, THEN k, THEN k, THEN k, THEN k, THEN k, THEN conjunct1] sample_lengths(4) by simp
  have c2: "rat_of_int (trend_percent 2 4) \<le> percent_double 2 4 + 1 / 2"
    and d2: "percent_double 2 4 + 1 / 2 < rat_of_int (trend_percent 2 4) + 1"
    using T2 [THEN k, THEN k, THEN k, THEN k, THEN conjunct1] by simp_all
  have n8: "\<not> (8::nat) dvd 3" by simp
  have a3: "trend_percent 2 3 = \<lfloor>relative_change 2 3 + 1 / 2\<rfloor>"
    using T3 [THEN k, THEN k, THEN k, THEN k, THEN k, THEN conjunct1] by simp
  have b3: "trend (calculateRealStats ?now P24h (history_of_counts 2 3) []) = ''-33%''"
    using T3 [THEN k, THEN k, THEN k, THEN k, THEN k, THEN k, THEN k, THEN k, THEN k, THEN conjunct1] by simp
  have a4: "trend (calculateRealStats ?now P24h (history_of_counts 9 8) []) = ''+13%''"
    using T4 [THEN k, THEN k, THEN k, THEN k, THEN k, THEN k, THEN k, THEN k, THEN k, THEN k, THEN conjunct1] by simp
  have a5: "trend (calculateRealStats ?now P24h (history_of_counts 7 8) []) = ''-12%''"
    using T5 [THEN k, THEN k, THEN k, THEN k, THEN k, THEN k, THEN k, THEN k, THEN k, THEN k, THEN k, THEN conjunct1] by simp
  have a6: "trend (calculateRealStats ?now P24h (history_of_counts 29 40) []) = ''-28%''"
    using T6 [THEN k, THEN k, THEN k, THEN k, THEN k, THEN k, THEN k, THEN k, THEN k, THEN k, THEN k, THEN k, THEN conjunct1] by simp
  have a7: "trend (calculateRealStats ?now P24h (history_of_counts 63 40) []) = ''+57%''"
    using T7 [THEN k, THEN k, THEN k, THEN k, THEN k, THEN k, THEN k, THEN k, THEN k, THEN k, THEN k, THEN k, THEN k] by simp
  from a0 rising_counts [THEN conjunct1] rising_counts [THEN conjunct2] a1
    falling_counts [THEN conjunct1] falling_counts [THEN conjunct2] sample_lengths(4) a2 b2 c2 d2
    history_of_counts_counts(2) [of 2 3] history_of_counts_counts(1) [of 2 3] n8 a3 b3 a4 a5
    history_of_counts_counts(2) [of 29 40] history_of_counts_counts(1) [of 29 40] a6 a7
  show ?thesis by (intro conjI)
qed

text \<open>
  C6, as stated, fails: persona p1 is selected, then p2; the request of p2 settles
  first and its verdict is shown; then the request of p1 settles, and its verdict
  replaces the one shown while p2 is still the selected persona.
\<close>

theorem stale_completion_overwrites:
  "persona_run JNull (idle_persona, [])
     [Select ''Gamer'' ''p1'', Select ''Estudante'' ''p2'',
      Settle ''p2'' (plain_response ''Xbox, pelo preco'')] =
     (\<lparr>selectedPersona = Some ''p2'',
       personaResult = Some (fallback_verdict ''Xbox, pelo preco''),
       loadingPersona = False\<rparr>, [(''p1'', ''Gamer'')])
   \<and> persona_run JNull (idle_persona, [])
     [Select ''Gamer'' ''p1'', Select ''Estudante'' ''p2'',
      Settle ''p2'' (plain_response ''Xbox, pelo preco''),
      Settle ''p1'' (plain_response ''PS5, pelos exclusivos'')] =
     (\<lparr>selectedPersona = Some ''p2'',
       personaResult = Some (fallback_verdict ''PS5, pelos exclusivos''),
       loadingPersona = False\<rparr>, [])
   \<and> fallback_verdict ''PS5, pelos exclusivos'' \<noteq> fallback_verdict ''Xbox, pelo preco''"
proof -
  have a: "getPersonaAnalysis JNull l (plain_response ''Xbox, pelo preco'') =
      Inr (fallback_verdict ''Xbox, pelo preco'')" for l
    by (rule getPersonaAnalysis_plain) simp
  have b: "getPersonaAnalysis JNull l (plain_response ''PS5, pelos exclusivos'') =
      Inr (fallback_verdict ''PS5, pelos exclusivos'')" for l
    by (rule getPersonaAnalysis_plain) simp
  have c: "fallback_verdict ''PS5, pelos exclusivos'' \<noteq> fallback_verdict ''Xbox, pelo preco''"
    by (simp add: fallback_verdict_def js_string_def)
  show ?thesis
    using c
    by (simp add: persona_run_def idle_persona_def handlePersonaSelect_begin_def
        handlePersonaSelect_settle_def a b)
qed

text \<open>
  C6, amended. Completions are applied in arrival order with no comparison of persona
  ids: after any run of selections and completions, when a pending request settles with
  a verdict, that verdict becomes the persona result and loading ends, whatever persona
  is selected then, and the selected persona is left as it was.
\<close>

theorem completion_applied_unconditionally:
  assumes "persona_run context s0 es = (st, pending)"
    and "take_pending personaId pending = Some (personaLabel, pending')"
    and "getPersonaAnalysis context personaLabel response = Inr verdict"
  shows "persona_run context s0 (es @ [Settle personaId response]) =
           (st\<lparr>personaResult := Some verdict, loadingPersona := False\<rparr>, pending')
       \<and> selectedPersona (fst (persona_run context s0 (es @ [Settle personaId response]))) =
           selectedPersona st"
  using assms by (simp add: persona_run_def handlePersonaSelect_settle_def)

theorem completion_applied_unconditionally_witness:
  "persona_run JNull (idle_persona, [])
     [Select ''Gamer'' ''p1'', Select ''Estudante'' ''p2'',
      Settle ''p2'' (plain_response ''Xbox, pelo preco'')] =
     (\<lparr>selectedPersona = Some ''p2'',
       personaResult = Some (fallback_verdict ''Xbox, pelo preco''),
       loadingPersona = False\<rparr>, [(''p1'', ''Gamer'')])
   \<and> take_pending ''p1'' [(''p1'', ''Gamer'')] = Some (''Gamer'', [])
   \<and> getPersonaAnalysis JNull ''Gamer'' (plain_response ''PS5, pelos exclusivos'') =
       Inr (fallback_verdict ''PS5, pelos exclusivos'')
   \<and> persona_run JNull (idle_persona, [])
       ([Select ''Gamer'' ''p1'', Select ''Estudante'' ''p2'',
         Settle ''p2'' (plain_response ''Xbox, pelo preco'')] @
        [Settle ''p1'' (plain_response ''PS5, pelos exclusivos'')]) =
       (\<lparr>selectedPersona = Some ''p2'',
         personaResult = Some (fallback_verdict ''PS5, pelos exclusivos''),
         loadingPersona = False\<rparr>, [])"
proof -
  have x: "getPersonaAnalysis JNull l (plain_response ''Xbox, pelo preco'') =
      Inr (fallback_verdict ''Xbox, pelo preco'')" for l
    by (rule getPersonaAnalysis_plain) simp
  have r: "persona_run JNull (idle_persona, [])
     [Select ''Gamer'' ''p1'', Select ''Estudante'' ''p2'',
      Settle ''p2'' (plain_response ''Xbox, pelo preco'')] =
     (\<lparr>selectedPersona = Some ''p2'',
       personaResult = Some (fallback_verdict ''Xbox, pelo preco''),
       loadingPersona = False\<rparr>, [(''p1'', ''Gamer'')])"
    by (simp add: persona_run_def idle_persona_def handlePersonaSelect_begin_def
        handlePersonaSelect_settle_def x)
  have a: "take_pending ''p1'' [(''p1'', ''Gamer'')] = Some (''Gamer'', [])"
    by simp
  have b: "getPersonaAnalysis JNull ''Gamer'' (plain_response ''PS5, pelos exclusivos'') =
      Inr (fallback_verdict ''PS5, pelos exclusivos'')"
    by (rule getPersonaAnalysis_plain) simp
  from completion_applied_unconditionally [OF r a b]
  show ?thesis
    using r a b by simp
qed

text \<open>
  C7, as stated, fails: a chunk whose web reference has no uri is kept, so the returned
  list holds a source without a usable uri.
\<close>

theorem sources_keep_missing_uri:
  "compareProducts ''PS5 vs Xbox'' 5 (Inr cited_without_uri) =
     Inr \<lparr>data = None,
          sources = [\<lparr>title = ''Loja'', uri = None\<rparr>,
                     \<lparr>title = ''Fonte Web'', uri = Some ''https://a.example''\<rparr>],
          rawText = Some ''PS5 vence'', query = ''PS5 vs Xbox'', timestamp = Some 5\<rparr>
   \<and> \<not> usable_uri \<lparr>title = ''Loja'', uri = None\<rparr>"
  by (simp add: compareProducts_def Let_def cited_without_uri_def extract_sources_def
      source_of_chunk_def usable_uri_def text_or_empty_def jsonMatch_def falsy_def)

text \<open>
  C7, amended. The returned sources are, in order, one per chunk that has a web
  reference: its title, or the label "Fonte Web" when the title is absent or empty, and
  its uri as it stands (chunks without a web reference are dropped; no citation is
  dropped for its uri). So no source has an empty title, and the uris of the sources
  are exactly the uris of the web references.
\<close>

theorem sources_from_web_chunks:
  "\<exists>res. compareProducts q now (Inr resp) = Inr res
     \<and> sources res =
         map (\<lambda>w. \<lparr>title = (case web_title w of
                               None \<Rightarrow> ''Fonte Web''
                             | Some t \<Rightarrow> if t = [] then ''Fonte Web'' else t),
                    uri = web_uri w\<rparr>) (web_refs (groundingChunks resp))
     \<and> list_all (\<lambda>s. title s \<noteq> []) (sources res)
     \<and> map uri (sources res) = map web_uri (web_refs (groundingChunks resp))"
proof -
  obtain res where r: "compareProducts q now (Inr resp) = Inr res"
    and s: "sources res = extract_sources (groundingChunks resp)"
    using sources_compareProducts by blast
  have "list_all (\<lambda>s. title s \<noteq> []) (extract_sources (groundingChunks resp))"
    unfolding extract_sources_web_refs
    by (auto simp: list_all_iff split: option.splits)
  moreover have "map uri (extract_sources (groundingChunks resp)) =
      map web_uri (web_refs (groundingChunks resp))"
    unfolding extract_sources_web_refs by (simp add: o_def)
  ultimately show ?thesis
    using r s extract_sources_web_refs [of "groundingChunks resp"] by auto
qed

text \<open>
  C8. For a non-blank query, when the comparison request is rejected (so that
  \<open>compareProducts\<close> rethrows the error), the search ends in state ERROR with the fixed
  message, whatever the error was, with no current result, and the history and the saved
  comparisons are as before.
\<close>

theorem handleSearch_failure:
  assumes "trim (finalQuery sq st) \<noteq> []"
  shows "compareProducts (finalQuery sq st) t (Inl err) = Inl err
       \<and> loadingState (handleSearch sq now (compareProducts (finalQuery sq st) t (Inl err)) st) = ERROR
       \<and> error (handleSearch sq now (compareProducts (finalQuery sq st) t (Inl err)) st) =
           Some error_message
       \<and> result (handleSearch sq now (compareProducts (finalQuery sq st) t (Inl err)) st) = None
       \<and> history (handleSearch sq now (compareProducts (finalQuery sq st) t (Inl err)) st) =
           history st
       \<and> savedComparisons (handleSearch sq now (compareProducts (finalQuery sq st) t (Inl err)) st) =
           savedComparisons st"
  using assms
  by (simp add: compareProducts_def handleSearch_def handleSearch_settle_def
      handleSearch_begin_def Let_def)

theorem handleSearch_failure_witness:
  "trim (finalQuery (Some ''A vs B'') example_state) \<noteq> []
   \<and> loadingState (handleSearch (Some ''A vs B'') 20
        (compareProducts ''A vs B'' 19 (Inl (ApiError ''503 Service Unavailable''))) example_state) = ERROR
   \<and> error (handleSearch (Some ''A vs B'') 20
        (compareProducts ''A vs B'' 19 (Inl (ApiError ''503 Service Unavailable''))) example_state) =
       Some error_message
   \<and> history (handleSearch (Some ''A vs B'') 20
        (compareProducts ''A vs B'' 19 (Inl (ApiError ''503 Service Unavailable''))) example_state) =
       [\<lparr>h_query = ''C vs D'', h_timestamp = 7\<rparr>, \<lparr>h_query = ''A vs B'', h_timestamp = 5\<rparr>]"
proof -
  have fq: "finalQuery (Some ''A vs B'') example_state = ''A vs B''"
    by (simp add: finalQuery_def)
  have h: "trim (finalQuery (Some ''A vs B'') example_state) \<noteq> []"
    unfolding fq by (rule trim_example)
  have hist: "history example_state =
      [\<lparr>h_query = ''C vs D'', h_timestamp = 7\<rparr>, \<lparr>h_query = ''A vs B'', h_timestamp = 5\<rparr>]"
    by (simp add: example_state_def)
  from handleSearch_failure [OF h, of 19 "ApiError ''503 Service Unavailable''" 20] h
  show ?thesis
    unfolding fq hist by blast
qed

text \<open>
  C9. With no current result, or a current result whose record is null, \<open>toggleSave\<close>
  returns the state as it was: in particular the saved comparisons are unchanged.
\<close>

theorem toggleSave_without_record:
  assumes "result st = None \<or> (\<exists>r. result st = Some r \<and> data r = None)"
  shows "toggleSave uuid now st = st
       \<and> savedComparisons (toggleSave uuid now st) = savedComparisons st"
  using assms by (auto simp: toggleSave_def falsy_def)

theorem toggleSave_without_record_witness:
  "(result (example_state\<lparr>result := None\<rparr>) = None
     \<and> toggleSave ''id1'' 10 (example_state\<lparr>result := None\<rparr>) = example_state\<lparr>result := None\<rparr>)
   \<and> (result (example_state\<lparr>result := Some (example_result\<lparr>data := None, rawText := Some ''PS5''\<rparr>)\<rparr>) =
         Some (example_result\<lparr>data := None, rawText := Some ''PS5''\<rparr>)
     \<and> data (example_result\<lparr>data := None, rawText := Some ''PS5''\<rparr>) = None
     \<and> savedComparisons (toggleSave ''id1'' 10
          (example_state\<lparr>result := Some (example_result\<lparr>data := None, rawText := Some ''PS5''\<rparr>)\<rparr>)) = [])"
proof -
  let ?raw = "example_result\<lparr>data := None, rawText := Some ''PS5''\<rparr>"
  have a: "result (example_state\<lparr>result := None\<rparr>) = None
      \<or> (\<exists>r. result (example_state\<lparr>result := None\<rparr>) = Some r \<and> data r = None)"
    by simp
  have b: "result (example_state\<lparr>result := Some ?raw\<rparr>) = None
      \<or> (\<exists>r. result (example_state\<lparr>result := Some ?raw\<rparr>) = Some r \<and> data r = None)"
    by simp
  have c: "savedComparisons (example_state\<lparr>result := Some ?raw\<rparr>) = []"
    by (simp add: example_state_def)
  from toggleSave_without_record [OF a, of "''id1''" 10]
    toggleSave_without_record [OF b, of "''id1''" 10] c
  show ?thesis by simp
qed

text \<open>
  C10. When the text of the response (the empty text when the response has none) has
  no opening brace followed later by a closing brace, \<open>getPersonaAnalysis\<close> returns
  (does not throw) the object with winner "Indeterminado" and the response text as
  reason; completing the selection with it stores that object as the persona result
  and ends the loading state.
\<close>

theorem getPersonaAnalysis_fallback:
  assumes "\<not> has_brace_span (text_or_empty t)"
  shows "getPersonaAnalysis context personaLabel
           (Inr \<lparr>response_text = t, groundingChunks = chunks\<rparr>) =
           Inr (JObject [(map of_char ''winner'', js_string ''Indeterminado''),
                         (map of_char ''reason'', js_string (text_or_empty t))])
       \<and> personaResult (handlePersonaSelect_settle
            (getPersonaAnalysis context personaLabel
               (Inr \<lparr>response_text = t, groundingChunks = chunks\<rparr>)) st) =
           Some (JObject [(map of_char ''winner'', js_string ''Indeterminado''),
                          (map of_char ''reason'', js_string (text_or_empty t))])
       \<and> \<not> loadingPersona (handlePersonaSelect_settle
            (getPersonaAnalysis context personaLabel
               (Inr \<lparr>response_text = t, groundingChunks = chunks\<rparr>)) st)"
proof -
  from assms have "jsonMatch (text_or_empty t) = None"
    by (simp add: jsonMatch_None_iff)
  then show ?thesis
    by (simp add: getPersonaAnalysis_def handlePersonaSelect_settle_def)
qed

theorem getPersonaAnalysis_fallback_witness:
  "\<not> has_brace_span (text_or_empty (Some ''PS5 vence''))
   \<and> getPersonaAnalysis JNull ''Gamer''
       (Inr \<lparr>response_text = Some ''PS5 vence'', groundingChunks = None\<rparr>) =
       Inr (JObject [(map of_char ''winner'', js_string ''Indeterminado''),
                     (map of_char ''reason'', js_string ''PS5 vence'')])
   \<and> personaResult (handlePersonaSelect_settle
        (getPersonaAnalysis JNull ''Gamer''
           (Inr \<lparr>response_text = Some ''PS5 vence'', groundingChunks = None\<rparr>))
        (handlePersonaSelect_begin ''p1'' idle_persona)) =
       Some (JObject [(map of_char ''winner'', js_string ''Indeterminado''),
                      (map of_char ''reason'', js_string ''PS5 vence'')])"
proof -
  have t: "text_or_empty (Some ''PS5 vence'') = ''PS5 vence''"
    by (simp add: text_or_empty_def)
  have h: "\<not> has_brace_span (text_or_empty (Some ''PS5 vence''))"
    unfolding t by (rule no_brace_no_span) simp
  from getPersonaAnalysis_fallback [OF h, of JNull "''Gamer''" None
      "handlePersonaSelect_begin ''p1'' idle_persona"] h
  show ?thesis
    unfolding t by blast
qed

end
